theory Spec2Isabelle
  imports Main "HOL-Library.Word" "HOL-Library.Multiset"
begin

unbundle bit_operations_syntax

section \<open>JavaScript primitives used by the solver\<close>

text \<open>
  Strings are lists of 8-bit characters; the puzzle labels are ASCII.  The
  class \<open>\s\<close> of the regular expression and the characters removed by
  \<open>trim()\<close> are the same set; restricted to one byte it consists of
  TAB, LF, VT, FF, CR, SPACE and NBSP.
\<close>

definition isSpace :: "char \<Rightarrow> bool" where
  "isSpace c = (of_char c \<in> set [9, 10, 11, 12, 13, 32, 160 :: nat])"

definition trim :: "string \<Rightarrow> string" where
  "trim s = rev (dropWhile isSpace (rev (dropWhile isSpace s)))"

text \<open>
  \<open>s.split(/\s+/)\<close>: the pieces of \<open>s\<close> between maximal runs of
  white space.  A string that begins (ends) with white space yields an empty
  first (last) piece, and the empty string yields one empty piece.
\<close>

function splitWs :: "string \<Rightarrow> string list" where
  "splitWs s =
     (let tok = takeWhile (\<lambda>c. \<not> isSpace c) s;
          rest = dropWhile (\<lambda>c. \<not> isSpace c) s
      in if rest = [] then [tok] else tok # splitWs (dropWhile isSpace rest))"
  by pat_completeness auto
termination
proof (relation "measure length")
  show "wf (measure length)" by simp
next
  fix s :: string and tok rest
  assume rest: "rest = dropWhile (\<lambda>c. \<not> isSpace c) s" and ne: "rest \<noteq> []"
  from ne rest have sp: "isSpace (hd rest)"
    using hd_dropWhile [of "\<lambda>c. \<not> isSpace c" s] by auto
  from ne sp have "dropWhile isSpace rest = dropWhile isSpace (tl rest)"
    by (cases rest) auto
  then have "length (dropWhile isSpace rest) \<le> length (tl rest)"
    using length_dropWhile_le [of isSpace "tl rest"] by simp
  also from ne have "\<dots> < length rest" by (cases rest) auto
  also from rest have "\<dots> \<le> length s" by (simp add: length_dropWhile_le)
  finally show "(dropWhile isSpace rest, s) \<in> measure length" by simp
qed

declare splitWs.simps [simp del]

text \<open>\<open>xs.indexOf(a)\<close>: the first index of \<open>a\<close>, or \<open>-1\<close>.\<close>

fun indexOf :: "'a list \<Rightarrow> 'a \<Rightarrow> int" where
  "indexOf [] a = -1"
| "indexOf (x # xs) a =
     (if x = a then 0 else (let r = indexOf xs a in if r < 0 then -1 else r + 1))"

text \<open>
  \<open>xs.sort(cmp)\<close> with a consistent comparator: a stable sort, here by
  insertion.  An element is put in front of the first one that it does not
  compare greater than, so equal elements keep their input order.
\<close>

fun insertBy :: "('a \<Rightarrow> 'a \<Rightarrow> int) \<Rightarrow> 'a \<Rightarrow> 'a list \<Rightarrow> 'a list" where
  "insertBy cmp x [] = [x]"
| "insertBy cmp x (y # ys) = (if cmp x y \<le> 0 then x # y # ys else y # insertBy cmp x ys)"

definition sortBy :: "('a \<Rightarrow> 'a \<Rightarrow> int) \<Rightarrow> 'a list \<Rightarrow> 'a list" where
  "sortBy cmp xs = foldr (insertBy cmp) xs []"

text \<open>
  \<open>a.localeCompare(b)\<close>.  The solver compares validated labels only
  (upper-case ASCII letters), on which collation order is code-unit order.
\<close>

fun localeCompare :: "string \<Rightarrow> string \<Rightarrow> int" where
  "localeCompare [] [] = 0"
| "localeCompare [] (y # ys) = -1"
| "localeCompare (x # xs) [] = 1"
| "localeCompare (x # xs) (y # ys) =
     (if (of_char x :: nat) < of_char y then -1
      else if (of_char y :: nat) < of_char x then 1
      else localeCompare xs ys)"

text \<open>\<open>w.includes("B")\<close>: the one-character string occurs in \<open>w\<close>.\<close>

definition includesB :: "string \<Rightarrow> bool" where
  "includesB w = (CHR ''B'' \<in> set w)"

subsection \<open>32-bit integer operators\<close>

text \<open>
  The operators \<open>&\<close>, \<open>|\<close> and \<open><<\<close> convert their operands to
  32-bit two's complement integers and give a signed 32-bit result; the shift
  count is taken modulo 32.
\<close>

definition toInt32 :: "int \<Rightarrow> 32 word" where
  "toInt32 x = word_of_int x"

definition jsAnd :: "int \<Rightarrow> int \<Rightarrow> int" where
  "jsAnd a b = sint (toInt32 a AND toInt32 b)"

definition jsOr :: "int \<Rightarrow> int \<Rightarrow> int" where
  "jsOr a b = sint (toInt32 a OR toInt32 b)"

definition jsShl :: "int \<Rightarrow> nat \<Rightarrow> int" where
  "jsShl a n = sint (push_bit (n mod 32) (toInt32 a))"

text \<open>
  \<open>s.toString(36)\<close> for an integer \<open>s\<close>: a minus sign for a
  negative number, then the digits of its absolute value.
\<close>

definition digit36 :: "nat \<Rightarrow> char" where
  "digit36 d = ''0123456789abcdefghijklmnopqrstuvwxyz'' ! d"

function natToString36 :: "int \<Rightarrow> string" where
  "natToString36 n =
     (if n < 36 then [digit36 (nat n)]
      else natToString36 (n div 36) @ [digit36 (nat (n mod 36))])"
  by pat_completeness auto
termination
  by (relation "measure nat") auto

declare natToString36.simps [simp del]

definition toString36 :: "int \<Rightarrow> string" where
  "toString36 s = (if s < 0 then CHR ''-'' # natToString36 (- s) else natToString36 s)"

section \<open>Parsing and validation\<close>

definition ORDER :: "string list" where
  "ORDER = [''BX'', ''AX'', ''B'', ''A'']"

definition parseLine :: "string \<Rightarrow> string list" where
  "parseLine line = sortBy (\<lambda>a b. indexOf ORDER a - indexOf ORDER b) (splitWs (trim line))"

text \<open>
  Every failure of the solver is a JavaScript \<open>Error\<close> with its own
  message.  The first three are raised while the input is read and are the
  malformed-input errors; the last one is raised when the search is exhausted.
\<close>

datatype error =
    ExpectSixteenLines
  | ExpectFourWords
  | InvalidWord string nat
  | NoValidSolution

fun isMalformedInput :: "error \<Rightarrow> bool" where
  "isMalformedInput ExpectSixteenLines = True"
| "isMalformedInput ExpectFourWords = True"
| "isMalformedInput (InvalidWord w i) = True"
| "isMalformedInput NoValidSolution = False"

definition allowedWord :: "string \<Rightarrow> bool" where
  "allowedWord w = (w \<in> set [''A'', ''B'', ''AX'', ''BX''])"

text \<open>
  The validation loops \<open>for i < 16, for k < 4\<close>: the first word that is
  not a label, with its row.
\<close>

fun firstInvalidFrom :: "string list list \<Rightarrow> nat \<Rightarrow> nat \<Rightarrow> (string \<times> nat) option" where
  "firstInvalidFrom rs i 0 = None"
| "firstInvalidFrom rs i (Suc n) =
     (case find (\<lambda>w. \<not> allowedWord w) (map (\<lambda>k. rs ! i ! k) [0..<4]) of
        Some w \<Rightarrow> Some (w, i)
      | None \<Rightarrow> firstInvalidFrom rs (i + 1) n)"

definition firstInvalid :: "string list list \<Rightarrow> (string \<times> nat) option" where
  "firstInvalid rs = firstInvalidFrom rs 0 16"

section \<open>Data derived from the rows before the search\<close>

definition countB :: "string list \<Rightarrow> int" where
  "countB row = sum_list (map (\<lambda>k. if includesB (row ! k) then 1 else 0) [0..<4])"

text \<open>The comparator of \<open>rowOrder.sort\<close>.\<close>

definition cmpRow :: "bool list \<Rightarrow> int list \<Rightarrow> nat \<Rightarrow> nat \<Rightarrow> int" where
  "cmpRow isBX tB i j =
     (if isBX ! i \<and> \<not> isBX ! j then -1
      else if \<not> isBX ! i \<and> isBX ! j then 1
      else tB ! i - tB ! j)"

definition mkRowOrder :: "bool list \<Rightarrow> int list \<Rightarrow> nat list" where
  "mkRowOrder isBX tB = sortBy (cmpRow isBX tB) [0..<16]"

text \<open>
  \<open>uniquePermutationsOf3\<close>: the recursive procedure \<open>backtrack\<close> with its
  loop over \<open>i < 3\<close>.  The result is the list of permutations pushed, in the
  order of the pushes.  \<open>backtrack\<close> starts from the empty \<open>perm\<close> and
  each level extends it by one, so it never holds more than three indices.
\<close>

function backtrack :: "(string \<times> nat) list \<Rightarrow> bool list \<Rightarrow> nat list \<Rightarrow> nat list list"
  and backtrackLoop :: "(string \<times> nat) list \<Rightarrow> bool list \<Rightarrow> nat list \<Rightarrow> nat \<Rightarrow> nat list list"
where
  "backtrack combined used perm =
     (if length perm = 3 then [perm]
      else if 3 < length perm then []
      else backtrackLoop combined used perm 0)"
| "backtrackLoop combined used perm i =
     (if 3 \<le> i \<or> 3 \<le> length perm then []
      else if \<not> used ! i then
        (if 0 < i \<and> \<not> used ! (i - 1) \<and> fst (combined ! i) = fst (combined ! (i - 1))
         then backtrackLoop combined used perm (i + 1)
         else backtrack combined (used[i := True]) (perm @ [snd (combined ! i)])
              @ backtrackLoop combined used perm (i + 1))
      else backtrackLoop combined used perm (i + 1))"
  by pat_completeness auto
termination
  by (relation "measures
        [\<lambda>x. case x of Inl (c, u, p) \<Rightarrow> 3 - length p | Inr (c, u, p, i) \<Rightarrow> 3 - length p,
         \<lambda>x. case x of Inl (c, u, p) \<Rightarrow> 5 | Inr (c, u, p, i) \<Rightarrow> 3 - i]") auto

declare backtrack.simps [simp del] backtrackLoop.simps [simp del]

definition uniquePermutationsOf3 :: "string list \<Rightarrow> nat list \<Rightarrow> nat list list" where
  "uniquePermutationsOf3 ws idxs =
     (let combined = sortBy (\<lambda>a b. localeCompare (fst a) (fst b))
                       [(ws ! 0, idxs ! 0), (ws ! 1, idxs ! 1), (ws ! 2, idxs ! 2)]
      in backtrack combined [False, False, False] [])"

definition makeUniquePerms3 :: "string list list \<Rightarrow> nat \<Rightarrow> nat list list" where
  "makeUniquePerms3 rs rowIdx =
     (let xi = 0;
          others = filter (\<lambda>k. k \<noteq> xi) [0, 1, 2, 3];
          ws = map (\<lambda>k. rs ! rowIdx ! k) others
      in uniquePermutationsOf3 ws others)"

text \<open>The constants of one \<open>baselineSolver\<close> call that the search reads.\<close>

record puzzle =
  rows :: "string list list"
  hasB :: "bool list list"
  xIsBX :: "bool list"
  totalB :: "int list"
  totalBInPuzzle :: int
  rowOrder :: "nat list"
  rowNonXPerms :: "nat list list list"

definition mkPuzzle :: "string list list \<Rightarrow> puzzle" where
  "mkPuzzle rs =
     (let tB = map (\<lambda>i. countB (rs ! i)) [0..<16];
          isBX = map (\<lambda>i. rs ! i ! 0 = ''BX'') [0..<16]
      in \<lparr> rows = rs,
           hasB = map (map includesB) rs,
           xIsBX = isBX,
           totalB = tB,
           totalBInPuzzle = sum_list tB,
           rowOrder = mkRowOrder isBX tB,
           rowNonXPerms = map (makeUniquePerms3 rs) [0..<16] \<rparr>)"

section \<open>The search state\<close>

text \<open>
  The arrays and the memo table that \<open>assignRow\<close> mutates.  \<open>trace\<close> is
  a ghost field: it records, newest first, every invocation of
  \<open>assignRow\<close> and every placement of an X word together with the column
  counters at that moment; the program does not read it.
\<close>

datatype event =
    Enter nat "int list" "int list" "int list"
  | PlaceX nat nat "int list" "int list" "int list"

record search_state =
  XCapacity :: "int list"
  BXCapacity :: "int list"
  BCount :: "int list"
  finalArrangement :: "string list list"
  memo :: "string \<rightharpoonup> bool"
  trace :: "event list"

definition initState :: search_state where
  "initState =
     \<lparr> XCapacity = [4, 4, 4, 4], BXCapacity = [1, 1, 1, 1], BCount = [0, 0, 0, 0],
       finalArrangement = replicate 16 (replicate 4 []),
       memo = Map.empty, trace = [] \<rparr>"

definition canStillReach4B :: "search_state \<Rightarrow> nat \<Rightarrow> int \<Rightarrow> bool" where
  "canStillReach4B s c rowsLeft = (BCount s ! c + rowsLeft \<ge> 4)"

definition isOverloadedB :: "puzzle \<Rightarrow> search_state \<Rightarrow> nat \<Rightarrow> bool" where
  "isOverloadedB P s c = (BCount s ! c > totalBInPuzzle P - 12)"

subsection \<open>State keys\<close>

text \<open>
  \<open>encodeState\<close> of \<open>solvers/baseline.ts\<close>: the bit-packed key.  Each
  \<open>|=\<close> and \<open><<\<close> is the 32-bit operator.
\<close>

definition encodeState :: "nat \<Rightarrow> search_state \<Rightarrow> string" where
  "encodeState pos st =
     (let s0 = foldl (\<lambda>s c. jsOr s (jsShl (jsAnd (BCount st ! c) 0x1f) (5 * c))) 0 [0..<4];
          bxPart = foldl (\<lambda>b c. jsOr b (jsShl (jsAnd (BXCapacity st ! c) 0x1) c)) 0 [0..<4];
          s1 = jsOr s0 (jsShl bxPart 20);
          xPart = foldl (\<lambda>x c. jsOr x (jsShl (jsAnd (XCapacity st ! c) 0x7) (3 * c))) 0 [0..<4];
          s2 = jsOr s1 (jsShl xPart 24);
          s3 = jsOr s2 (jsShl (jsAnd (int pos) 0x1f) 36)
      in toString36 s3)"

text \<open>
  \<open>encodeState\<close> of \<open>puzzle/validate.ts\<close>: the text key
  \<open>[pos, XCapacity.join(","), BXCapacity.join(","), BCount.join(",")].join("|")\<close>.
  \<open>numberToString\<close> is the decimal text of an integer and \<open>joinStr\<close>
  is \<open>Array.prototype.join\<close>.
\<close>

definition digit10 :: "nat \<Rightarrow> char" where
  "digit10 d = ''0123456789'' ! d"

function natToString10 :: "int \<Rightarrow> string" where
  "natToString10 n =
     (if n < 10 then [digit10 (nat n)]
      else natToString10 (n div 10) @ [digit10 (nat (n mod 10))])"
  by pat_completeness auto
termination
  by (relation "measure nat") auto

declare natToString10.simps [simp del]

definition numberToString :: "int \<Rightarrow> string" where
  "numberToString n = (if n < 0 then CHR ''-'' # natToString10 (- n) else natToString10 n)"

fun joinStr :: "string list \<Rightarrow> string \<Rightarrow> string" where
  "joinStr [] sep = []"
| "joinStr [x] sep = x"
| "joinStr (x # y # ys) sep = x @ sep @ joinStr (y # ys) sep"

definition encodeStateA :: "nat \<Rightarrow> search_state \<Rightarrow> string" where
  "encodeStateA pos st =
     joinStr [numberToString (int pos),
              joinStr (map numberToString (XCapacity st)) '','',
              joinStr (map numberToString (BXCapacity st)) '','',
              joinStr (map numberToString (BCount st)) '','']
       ''|''"

section \<open>The recursive search\<close>

definition setCell :: "string list list \<Rightarrow> nat \<Rightarrow> nat \<Rightarrow> string \<Rightarrow> string list list" where
  "setCell fa r c w = fa[r := (fa ! r)[c := w]]"

text \<open>The ghost record of one invocation of \<open>assignRow\<close>.\<close>

definition enter :: "nat \<Rightarrow> search_state \<Rightarrow> search_state" where
  "enter pos s = s\<lparr>trace := Enter pos (XCapacity s) (BXCapacity s) (BCount s) # trace s\<rparr>"

text \<open>The terminal check at \<open>pos = 16\<close>.\<close>

definition finalCheck :: "search_state \<Rightarrow> bool" where
  "finalCheck s =
     list_all (\<lambda>c. \<not> XCapacity s ! c \<noteq> 0 \<and> \<not> BCount s ! c < 4 \<and> \<not> BXCapacity s ! c < 0) [0..<4]"

text \<open>Placing the X word of row \<open>rIdx\<close> in column \<open>colX\<close>.\<close>

definition placeX :: "puzzle \<Rightarrow> nat \<Rightarrow> nat \<Rightarrow> nat \<Rightarrow> search_state \<Rightarrow> search_state" where
  "placeX P pos rIdx colX s =
     (let oldXCap = XCapacity s ! colX;
          oldBXCap = BXCapacity s ! colX;
          s1 = s\<lparr>finalArrangement := setCell (finalArrangement s) rIdx colX (rows P ! rIdx ! 0)\<rparr>;
          s2 = s1\<lparr>XCapacity := (XCapacity s1)[colX := oldXCap - 1]\<rparr>;
          s3 = (if xIsBX P ! rIdx
                then s2\<lparr>BXCapacity := (BXCapacity s2)[colX := oldBXCap - 1]\<rparr> else s2);
          s4 = (if hasB P ! rIdx ! 0
                then s3\<lparr>BCount := (BCount s3)[colX := BCount s3 ! colX + 1]\<rparr> else s3)
      in s4\<lparr>trace := PlaceX pos colX (XCapacity s4) (BXCapacity s4) (BCount s4) # trace s4\<rparr>)"

text \<open>One step of the loop \<open>for i3 < 3\<close>, and the loop.\<close>

definition placeOther :: "puzzle \<Rightarrow> nat \<Rightarrow> nat list \<Rightarrow> nat list \<Rightarrow> search_state \<Rightarrow> nat \<Rightarrow> search_state" where
  "placeOther P rIdx otherCols p3 s i3 =
     (let wIndex = p3 ! i3;
          c = otherCols ! i3;
          s1 = s\<lparr>finalArrangement := setCell (finalArrangement s) rIdx c (rows P ! rIdx ! wIndex)\<rparr>
      in if hasB P ! rIdx ! wIndex
         then s1\<lparr>BCount := (BCount s1)[c := BCount s1 ! c + 1]\<rparr> else s1)"

definition place3 :: "puzzle \<Rightarrow> nat \<Rightarrow> nat \<Rightarrow> nat list \<Rightarrow> search_state \<Rightarrow> search_state" where
  "place3 P rIdx colX p3 s =
     foldl (placeOther P rIdx (filter (\<lambda>c. c \<noteq> colX) [0, 1, 2, 3]) p3) s [0..<3]"

text \<open>The B pruning: \<open>valid\<close> after the loop over the four columns.\<close>

definition pruneValid :: "puzzle \<Rightarrow> nat \<Rightarrow> search_state \<Rightarrow> bool" where
  "pruneValid P pos s =
     (let rowsLeft = 16 - (int pos + 1)
      in list_all (\<lambda>c. \<not> (\<not> canStillReach4B s c rowsLeft \<or> isOverloadedB P s c)) [0..<4])"

text \<open>\<open>for c < 4: BCount[c] = old[c]\<close>.\<close>

definition restoreB :: "int list \<Rightarrow> search_state \<Rightarrow> search_state" where
  "restoreB old s = s\<lparr>BCount := foldl (\<lambda>b c. b[c := old ! c]) (BCount s) [0..<4]\<rparr>"

definition revertX :: "nat \<Rightarrow> int \<Rightarrow> int \<Rightarrow> int list \<Rightarrow> search_state \<Rightarrow> search_state" where
  "revertX colX oldXCap oldBXCap oldB s =
     restoreB oldB (s\<lparr>XCapacity := (XCapacity s)[colX := oldXCap],
                      BXCapacity := (BXCapacity s)[colX := oldBXCap]\<rparr>)"

text \<open>
  \<open>assignRow\<close> with its two loops: \<open>colLoop\<close> is the loop over \<open>colX\<close>
  from a given column on, \<open>permLoop\<close> the loop over the remaining
  permutations \<open>p3\<close> for one \<open>colX\<close>.  Each returns the result together
  with the state it leaves behind; \<open>permLoop\<close> returns \<open>foundSolution\<close>.
  The key function is a parameter, so that both versions of the solver are
  instances.  \<open>assignRow\<close> is only ever invoked at \<open>pos = 0\<close> and from
  \<open>pos < 16\<close> at \<open>pos + 1\<close>; the branch for \<open>16 < pos\<close> is never taken.
\<close>

function assignRow :: "(nat \<Rightarrow> search_state \<Rightarrow> string) \<Rightarrow> puzzle \<Rightarrow> nat \<Rightarrow> search_state \<Rightarrow> bool \<times> search_state"
  and colLoop :: "(nat \<Rightarrow> search_state \<Rightarrow> string) \<Rightarrow> puzzle \<Rightarrow> nat \<Rightarrow> string \<Rightarrow> nat \<Rightarrow> search_state \<Rightarrow> bool \<times> search_state"
  and permLoop :: "(nat \<Rightarrow> search_state \<Rightarrow> string) \<Rightarrow> puzzle \<Rightarrow> nat \<Rightarrow> nat \<Rightarrow> nat list list \<Rightarrow> search_state \<Rightarrow> bool \<times> search_state"
where
  "assignRow enc P pos s0 =
     (let s = enter pos s0
      in if pos = 16 then (finalCheck s, s)
         else if 16 < pos then (False, s)
         else (let stateKey = enc pos s
               in case memo s stateKey of
                    Some b \<Rightarrow> (b, s)
                  | None \<Rightarrow> colLoop enc P pos stateKey 0 s))"
| "colLoop enc P pos stateKey colX s =
     (if 4 \<le> colX then (False, s\<lparr>memo := (memo s)(stateKey \<mapsto> False)\<rparr>)
      else (let rIdx = rowOrder P ! pos; isBX = xIsBX P ! rIdx
            in if XCapacity s ! colX \<le> 0 then colLoop enc P pos stateKey (colX + 1) s
               else if isBX \<and> BXCapacity s ! colX \<le> 0 then colLoop enc P pos stateKey (colX + 1) s
               else (let oldXCap = XCapacity s ! colX;
                         oldBXCap = BXCapacity s ! colX;
                         oldB = BCount s;
                         r = permLoop enc P pos colX (rowNonXPerms P ! rIdx) (placeX P pos rIdx colX s)
                     in if fst r then (True, (snd r)\<lparr>memo := (memo (snd r))(stateKey \<mapsto> True)\<rparr>)
                        else colLoop enc P pos stateKey (colX + 1)
                               (revertX colX oldXCap oldBXCap oldB (snd r)))))"
| "permLoop enc P pos colX [] s = (False, s)"
| "permLoop enc P pos colX (p3 # rest) s =
     (let oldB2 = BCount s;
          s1 = place3 P (rowOrder P ! pos) colX p3 s
      in if pruneValid P pos s1
         then (let r = assignRow enc P (pos + 1) s1
               in if fst r then (True, snd r)
                  else permLoop enc P pos colX rest (restoreB oldB2 (snd r)))
         else permLoop enc P pos colX rest (restoreB oldB2 s1))"
  by pat_completeness auto
termination
  by (relation "measures
        [\<lambda>x. case x of Inl (e, P, pos, s) \<Rightarrow> 16 - pos
                | Inr (Inl (e, P, pos, k, colX, s)) \<Rightarrow> 16 - pos
                | Inr (Inr (e, P, pos, colX, ps, s)) \<Rightarrow> 16 - pos,
         \<lambda>x. case x of Inl (e, P, pos, s) \<Rightarrow> (if 16 \<le> pos then 0 else 2)
                | Inr (Inl (e, P, pos, k, colX, s)) \<Rightarrow> 1
                | Inr (Inr (e, P, pos, colX, ps, s)) \<Rightarrow> 0,
         \<lambda>x. case x of Inl (e, P, pos, s) \<Rightarrow> 0
                | Inr (Inl (e, P, pos, k, colX, s)) \<Rightarrow> 4 - colX
                | Inr (Inr (e, P, pos, colX, ps, s)) \<Rightarrow> Suc (length ps)]") auto

declare assignRow.simps [simp del] colLoop.simps [simp del] permLoop.simps [simp del]

section \<open>The solver\<close>

definition solveWith :: "(nat \<Rightarrow> search_state \<Rightarrow> string) \<Rightarrow> string list \<Rightarrow> error + string list list" where
  "solveWith enc inputLines =
     (if length inputLines \<noteq> 16 then Inl ExpectSixteenLines
      else (let rs = map parseLine inputLines
            in if \<not> list_all (\<lambda>r. length r = 4) rs then Inl ExpectFourWords
               else (case firstInvalid rs of
                       Some (w, i) \<Rightarrow> Inl (InvalidWord w i)
                     | None \<Rightarrow>
                         (let r = assignRow enc (mkPuzzle rs) 0 initState
                          in if \<not> fst r then Inl NoValidSolution
                             else Inr (finalArrangement (snd r))))))"

definition baselineSolver :: "string list \<Rightarrow> error + string list list" where
  "baselineSolver = solveWith encodeState"

text \<open>
  \<open>baselineSolver\<close> of \<open>puzzle/validate.ts\<close>: the same checks and the
  same search with the text key.  What that file adds,
  \<open>sameLineWithBefore\<close> and \<open>prevColX\<close>, is written and never read.
\<close>

definition baselineSolverA :: "string list \<Rightarrow> error + string list list" where
  "baselineSolverA = solveWith encodeStateA"

section \<open>Notions used in the statements\<close>

text \<open>
  An input passes the three checks of the solver: sixteen lines, four words
  on every line, every word one of the four labels.
\<close>

definition passesChecks :: "string list \<Rightarrow> bool" where
  "passesChecks ls =
     (length ls = 16 \<and>
      list_all (\<lambda>l. length (splitWs (trim l)) = 4 \<and> list_all allowedWord (splitWs (trim l))) ls)"

text \<open>
  Column \<open>colX\<close> is tried for the X word of the row at \<open>pos\<close>: neither
  of the two \<open>continue\<close> tests of the column loop fires.
\<close>

definition canPlaceX :: "puzzle \<Rightarrow> nat \<Rightarrow> nat \<Rightarrow> search_state \<Rightarrow> bool" where
  "canPlaceX P pos colX s =
     (\<not> XCapacity s ! colX \<le> 0 \<and> \<not> (xIsBX P ! (rowOrder P ! pos) \<and> BXCapacity s ! colX \<le> 0))"

text \<open>The three column arrays have their four entries.\<close>

definition caps4 :: "search_state \<Rightarrow> bool" where
  "caps4 s = (length (XCapacity s) = 4 \<and> length (BXCapacity s) = 4 \<and> length (BCount s) = 4)"

text \<open>A solvable instance and the grid that the solver returns for it.\<close>

definition exampleInput :: "string list" where
  "exampleInput =
     [''A B BX A'', ''A AX B B'', ''A AX A B'', ''B B A AX'',
      ''B AX A A'', ''A B AX B'', ''AX A A A'', ''A AX A A'',
      ''B A AX A'', ''BX A A A'', ''A A AX A'', ''B AX B B'',
      ''AX A A B'', ''A A AX A'', ''A A A AX'', ''A B AX B'']"

definition exampleGrid :: "string list list" where
  "exampleGrid =
     [[''A'', ''BX'', ''A'', ''B''], [''A'', ''B'', ''AX'', ''B''],
      [''A'', ''AX'', ''A'', ''B''], [''A'', ''B'', ''B'', ''AX''],
      [''A'', ''A'', ''AX'', ''B''], [''B'', ''A'', ''B'', ''AX''],
      [''AX'', ''A'', ''A'', ''A''], [''AX'', ''A'', ''A'', ''A''],
      [''A'', ''A'', ''AX'', ''B''], [''BX'', ''A'', ''A'', ''A''],
      [''AX'', ''A'', ''A'', ''A''], [''B'', ''B'', ''B'', ''AX''],
      [''A'', ''A'', ''AX'', ''B''], [''A'', ''AX'', ''A'', ''A''],
      [''A'', ''AX'', ''A'', ''A''], [''B'', ''A'', ''B'', ''AX'']]"

text \<open>The column state: the three arrays that the search saves and restores.\<close>

definition columnState :: "search_state \<Rightarrow> int list \<times> int list \<times> int list" where
  "columnState s = (XCapacity s, BXCapacity s, BCount s)"

text \<open>
  The ranges of the two capacities, for the arrays of a state and for the
  arrays recorded in an event of the trace.
\<close>

definition inRange :: "int list \<Rightarrow> int list \<Rightarrow> bool" where
  "inRange X BX = (\<forall>c<4. 0 \<le> X ! c \<and> X ! c \<le> 4 \<and> 0 \<le> BX ! c \<and> BX ! c \<le> 1)"

fun eventInRange :: "event \<Rightarrow> bool" where
  "eventInRange (Enter pos X BX B) = inRange X BX"
| "eventInRange (PlaceX pos colX X BX B) = inRange X BX"

text \<open>
  Both prunes pass for the flagged counts \<open>B\<close> on entry to position
  \<open>pos\<close>: the count of every column plus the \<open>16 - pos\<close> rows still
  unplaced reaches 4, and no count exceeds the number of flagged words of the
  puzzle minus 12.
\<close>

definition pruneOk :: "puzzle \<Rightarrow> nat \<Rightarrow> int list \<Rightarrow> bool" where
  "pruneOk P pos B = (\<forall>c<4. B ! c + (16 - int pos) \<ge> 4 \<and> B ! c \<le> totalBInPuzzle P - 12)"

fun enterPruned :: "puzzle \<Rightarrow> event \<Rightarrow> bool" where
  "enterPruned P (Enter pos X BX B) = (pos = 0 \<or> pruneOk P pos B)"
| "enterPruned P (PlaceX pos colX X BX B) = True"

text \<open>The memo table holds no entry \<open>true\<close>.\<close>

definition noTrue :: "(string \<rightharpoonup> bool) \<Rightarrow> bool" where
  "noTrue m = (\<forall>k. m k \<noteq> Some True)"

text \<open>The invariants of the search about the capacities and about the trace.\<close>

definition rangeInv :: "search_state \<Rightarrow> bool" where
  "rangeInv s = (inRange (XCapacity s) (BXCapacity s) \<and> (\<forall>e\<in>set (trace s). eventInRange e))"

definition prunedInv :: "puzzle \<Rightarrow> search_state \<Rightarrow> bool" where
  "prunedInv P s = (\<forall>e\<in>set (trace s). enterPruned P e)"

section \<open>Solutions\<close>

text \<open>
  The three properties of a word that the column constraints count: marked
  (AX or BX), flagged (B or BX), flagged and marked (BX).
\<close>

definition isX :: "string \<Rightarrow> bool" where
  "isX w = (w = ''AX'' \<or> w = ''BX'')"

definition isB :: "string \<Rightarrow> bool" where
  "isB w = (w = ''B'' \<or> w = ''BX'')"

definition isBXword :: "string \<Rightarrow> bool" where
  "isBXword w = (w = ''BX'')"

text \<open>
  The number of rows among \<open>R\<close> whose entry in column \<open>c\<close> of the grid
  \<open>g\<close> has property \<open>p\<close>.
\<close>

definition colCount :: "(string \<Rightarrow> bool) \<Rightarrow> string list list \<Rightarrow> nat list \<Rightarrow> nat \<Rightarrow> int" where
  "colCount p g R c = int (length (filter (\<lambda>r. p (g ! r ! c)) R))"

text \<open>
  A grid solves the puzzle with the rows \<open>rs\<close>: it has sixteen rows, each
  a permutation of the corresponding row of the puzzle, and every column
  holds exactly four marked words, at least four flagged words and at most
  one BX.
\<close>

definition solves :: "string list list \<Rightarrow> string list list \<Rightarrow> bool" where
  "solves rs g =
     (length g = 16 \<and> (\<forall>i<16. mset (g ! i) = mset (rs ! i)) \<and>
      (\<forall>c<4. colCount isX g [0..<16] c = 4 \<and> colCount isB g [0..<16] c \<ge> 4
              \<and> colCount isBXword g [0..<16] c \<le> 1))"

text \<open>The words of an input line, and the lines with exactly one marked word.\<close>

definition wordsOf :: "string \<Rightarrow> string list" where
  "wordsOf l = splitWs (trim l)"

definition oneMarked :: "string list \<Rightarrow> bool" where
  "oneMarked ls = list_all (\<lambda>l. length (filter isX (wordsOf l)) = 1) ls"

text \<open>
  What the search relies on in the puzzle data; \<open>mkPuzzle\<close> establishes it
  for an input that passes the checks and has one marked word in every row.
\<close>

definition puzzleOk :: "puzzle \<Rightarrow> bool" where
  "puzzleOk P =
     (length (rowOrder P) = 16 \<and> distinct (rowOrder P) \<and> set (rowOrder P) = {0..<16} \<and>
      (\<forall>r<16. length (rows P ! r) = 4 \<and>
               isX (rows P ! r ! 0) \<and>
               (\<forall>k<4. 0 < k \<longrightarrow> \<not> isX (rows P ! r ! k)) \<and>
               (\<forall>k<4. hasB P ! r ! k = isB (rows P ! r ! k)) \<and>
               xIsBX P ! r = isBXword (rows P ! r ! 0) \<and>
               (\<forall>p3\<in>set (rowNonXPerms P ! r). mset p3 = mset [1, 2, 3])))"

text \<open>The grid has sixteen rows of four cells.\<close>

definition grid4 :: "string list list \<Rightarrow> bool" where
  "grid4 g = (length g = 16 \<and> (\<forall>r<16. length (g ! r) = 4))"

text \<open>
  The rows from position \<open>pos\<close> on are placed in \<open>g\<close> so that, together
  with the column state \<open>X\<close>, \<open>BX\<close>, \<open>B\<close> reached before them, every
  column constraint is met.
\<close>

definition completes :: "puzzle \<Rightarrow> nat \<Rightarrow> int list \<Rightarrow> int list \<Rightarrow> int list \<Rightarrow> string list list \<Rightarrow> bool" where
  "completes P pos X BX B g =
     ((\<forall>r\<in>set (drop pos (rowOrder P)). mset (g ! r) = mset (rows P ! r)) \<and>
      (\<forall>c<4. X ! c = colCount isX g (drop pos (rowOrder P)) c \<and>
              B ! c + colCount isB g (drop pos (rowOrder P)) c \<ge> 4 \<and>
              colCount isBXword g (drop pos (rowOrder P)) c \<le> BX ! c))"

text \<open>The index among the three other columns at which column \<open>c\<close> stands.\<close>

definition slot :: "nat \<Rightarrow> nat \<Rightarrow> nat" where
  "slot colX c = (if c < colX then c else c - 1)"

text \<open>Two grids have the same numbers of rows and of cells in every row.\<close>

definition sameShape :: "string list list \<Rightarrow> string list list \<Rightarrow> bool" where
  "sameShape g' g = (length g' = length g \<and> (\<forall>r. length (g' ! r) = length (g ! r)))"

text \<open>
  An input that passes the checks although its last row has two marked
  words (seventeen marked words in all), and the grid returned for it.
\<close>

definition overfullInput :: "string list" where
  "overfullInput =
     [''AX B B B'', ''AX B B B'', ''AX B B B'', ''AX B B B'',
      ''AX B B B'', ''AX B B B'', ''AX B B B'', ''AX B B B'',
      ''AX B B B'', ''AX B B B'', ''AX B B B'', ''AX B B B'',
      ''AX B B B'', ''AX B B B'', ''AX B B B'', ''AX AX B B'']"

definition overfullGrid :: "string list list" where
  "overfullGrid =
     [[''AX'', ''B'', ''B'', ''B''], [''AX'', ''B'', ''B'', ''B''],
      [''AX'', ''B'', ''B'', ''B''], [''B'', ''AX'', ''B'', ''B''],
      [''B'', ''AX'', ''B'', ''B''], [''B'', ''AX'', ''B'', ''B''],
      [''B'', ''AX'', ''B'', ''B''], [''B'', ''B'', ''AX'', ''B''],
      [''B'', ''B'', ''AX'', ''B''], [''B'', ''B'', ''AX'', ''B''],
      [''B'', ''B'', ''AX'', ''B''], [''B'', ''B'', ''B'', ''AX''],
      [''B'', ''B'', ''B'', ''AX''], [''B'', ''B'', ''B'', ''AX''],
      [''B'', ''B'', ''B'', ''AX''], [''AX'', ''AX'', ''B'', ''B'']]"

text \<open>
  An input whose row 14 has two marked words and whose row 15 has none, and
  the grid returned for it.
\<close>

definition irregularInput :: "string list" where
  "irregularInput =
     [''AX B B B'', ''AX B B B'', ''AX B B B'', ''AX B B B'',
      ''AX B B B'', ''AX B B B'', ''AX B B B'', ''AX B B B'',
      ''AX B B B'', ''AX B B B'', ''AX B B B'', ''AX B B B'',
      ''AX B B B'', ''AX B B B'', ''AX AX B B'', ''B B B A'']"

definition irregularGrid :: "string list list" where
  "irregularGrid =
     [[''AX'', ''B'', ''B'', ''B''], [''AX'', ''B'', ''B'', ''B''],
      [''AX'', ''B'', ''B'', ''B''], [''B'', ''AX'', ''B'', ''B''],
      [''B'', ''AX'', ''B'', ''B''], [''B'', ''AX'', ''B'', ''B''],
      [''B'', ''AX'', ''B'', ''B''], [''B'', ''B'', ''AX'', ''B''],
      [''B'', ''B'', ''AX'', ''B''], [''B'', ''B'', ''AX'', ''B''],
      [''B'', ''B'', ''AX'', ''B''], [''B'', ''B'', ''B'', ''AX''],
      [''B'', ''B'', ''B'', ''AX''], [''B'', ''B'', ''B'', ''AX''],
      [''AX'', ''AX'', ''B'', ''B''], [''A'', ''B'', ''B'', ''B'']]"

text \<open>
  The puzzle data of the solvable instance, the trace of the search on it,
  and an input without any flagged word.
\<close>

definition examplePuzzle :: puzzle where
  "examplePuzzle = mkPuzzle (map parseLine exampleInput)"

definition exampleTrace :: "event list" where
  "exampleTrace =
     [Enter 16 [0, 0, 0, 0] [0, 0, 1, 1] [4, 4, 4, 6],
      PlaceX 15 3 [0, 0, 0, 0] [0, 0, 1, 1] [3, 3, 3, 6],
      Enter 15 [0, 0, 0, 1] [0, 0, 1, 1] [3, 3, 3, 6],
      PlaceX 14 3 [0, 0, 0, 1] [0, 0, 1, 1] [2, 3, 2, 6],
      Enter 14 [0, 0, 0, 2] [0, 0, 1, 1] [2, 3, 2, 6],
      PlaceX 13 3 [0, 0, 0, 2] [0, 0, 1, 1] [1, 3, 1, 6],
      Enter 13 [0, 0, 0, 3] [0, 0, 1, 1] [1, 3, 1, 6],
      PlaceX 12 3 [0, 0, 0, 3] [0, 0, 1, 1] [1, 2, 0, 6],
      Enter 12 [0, 0, 0, 4] [0, 0, 1, 1] [1, 2, 0, 6],
      PlaceX 11 2 [0, 0, 0, 4] [0, 0, 1, 1] [1, 1, 0, 5],
      Enter 11 [0, 0, 1, 4] [0, 0, 1, 1] [1, 1, 0, 5],
      PlaceX 10 2 [0, 0, 1, 4] [0, 0, 1, 1] [1, 1, 0, 4],
      Enter 10 [0, 0, 2, 4] [0, 0, 1, 1] [1, 1, 0, 4],
      PlaceX 9 2 [0, 0, 2, 4] [0, 0, 1, 1] [1, 1, 0, 3],
      Enter 9 [0, 0, 3, 4] [0, 0, 1, 1] [1, 1, 0, 3],
      PlaceX 8 2 [0, 0, 3, 4] [0, 0, 1, 1] [1, 1, 0, 2],
      Enter 8 [0, 0, 4, 4] [0, 0, 1, 1] [1, 1, 0, 2],
      PlaceX 7 1 [0, 0, 4, 4] [0, 0, 1, 1] [1, 1, 0, 1],
      Enter 7 [0, 1, 4, 4] [0, 0, 1, 1] [1, 1, 0, 1],
      PlaceX 6 1 [0, 1, 4, 4] [0, 0, 1, 1] [1, 1, 0, 1],
      Enter 6 [0, 2, 4, 4] [0, 0, 1, 1] [1, 1, 0, 1],
      PlaceX 5 1 [0, 2, 4, 4] [0, 0, 1, 1] [1, 1, 0, 1],
      Enter 5 [0, 3, 4, 4] [0, 0, 1, 1] [1, 1, 0, 1],
      PlaceX 4 0 [0, 3, 4, 4] [0, 0, 1, 1] [1, 1, 0, 1],
      Enter 4 [1, 3, 4, 4] [0, 0, 1, 1] [1, 1, 0, 1],
      PlaceX 3 0 [1, 3, 4, 4] [0, 0, 1, 1] [1, 1, 0, 1],
      Enter 3 [2, 3, 4, 4] [0, 0, 1, 1] [1, 1, 0, 1],
      PlaceX 2 0 [2, 3, 4, 4] [0, 0, 1, 1] [1, 1, 0, 1],
      Enter 2 [3, 3, 4, 4] [0, 0, 1, 1] [1, 1, 0, 1],
      PlaceX 1 1 [3, 3, 4, 4] [0, 0, 1, 1] [1, 1, 0, 0],
      Enter 1 [3, 4, 4, 4] [0, 1, 1, 1] [1, 0, 0, 0],
      PlaceX 0 0 [3, 4, 4, 4] [0, 1, 1, 1] [1, 0, 0, 0],
      Enter 0 [4, 4, 4, 4] [1, 1, 1, 1] [0, 0, 0, 0]]"


section \<open>Notions for the converse: a solvable puzzle is solved\<close>

text \<open>
  The value that a decimal text denotes, and a key function that tells the
  column states apart: two states with their four entries per array get
  the same key only at the same position and with the same arrays.
\<close>

definition decimalValue :: "string \<Rightarrow> int" where
  "decimalValue ds = foldl (\<lambda>a c. 10 * a + (int (of_char c) - 48)) 0 ds"

definition keyInj :: "(nat \<Rightarrow> search_state \<Rightarrow> string) \<Rightarrow> bool" where
  "keyInj enc =
     (\<forall>pos s pos' s'. caps4 s \<longrightarrow> caps4 s' \<longrightarrow> enc pos s = enc pos' s' \<longrightarrow>
        pos = pos' \<and> columnState s = columnState s')"

text \<open>
  Some grid places the rows from position \<open>pos\<close> on so that all column
  constraints are met; some such grid has the X word of the row at
  \<open>pos\<close> in column \<open>c\<close>; and the entries \<open>false\<close> of a memo table
  are right about the states whose key they are stored under.
\<close>

definition solvableFrom :: "puzzle \<Rightarrow> nat \<Rightarrow> int list \<Rightarrow> int list \<Rightarrow> int list \<Rightarrow> bool" where
  "solvableFrom P pos X BX B = (\<exists>g. grid4 g \<and> completes P pos X BX B g)"

definition solvableVia :: "puzzle \<Rightarrow> nat \<Rightarrow> nat \<Rightarrow> int list \<Rightarrow> int list \<Rightarrow> int list \<Rightarrow> bool" where
  "solvableVia P pos c X BX B =
     (\<exists>g. grid4 g \<and> completes P pos X BX B g
          \<and> g ! (rowOrder P ! pos) ! c = rows P ! (rowOrder P ! pos) ! 0)"

definition memoSound :: "(nat \<Rightarrow> search_state \<Rightarrow> string) \<Rightarrow> puzzle \<Rightarrow> (string \<rightharpoonup> bool) \<Rightarrow> bool" where
  "memoSound enc P m =
     (\<forall>pos s. caps4 s \<longrightarrow> m (enc pos s) = Some False \<longrightarrow>
        \<not> solvableFrom P pos (XCapacity s) (BXCapacity s) (BCount s))"

text \<open>
  The flagged words of a row, and of the rows before position \<open>pos\<close>.
\<close>

definition flaggedIn :: "puzzle \<Rightarrow> nat \<Rightarrow> int" where
  "flaggedIn P r = int (length (filter isB (rows P ! r)))"

definition flaggedPlaced :: "puzzle \<Rightarrow> nat \<Rightarrow> int" where
  "flaggedPlaced P pos = sum_list (map (flaggedIn P) (take pos (rowOrder P)))"

text \<open>
  Every arrangement of the three other words of a row is the arrangement of
  one of the permutations kept for the row; \<open>totalBInPuzzle\<close> counts the
  flagged words of all rows.
\<close>

definition permsCover :: "puzzle \<Rightarrow> bool" where
  "permsCover P =
     (\<forall>r<16. \<forall>ws. mset ws = {#rows P ! r ! 1, rows P ! r ! 2, rows P ! r ! 3#} \<longrightarrow>
        (\<exists>p3\<in>set (rowNonXPerms P ! r). \<forall>i<3. rows P ! r ! (p3 ! i) = ws ! i))"

definition puzzleFull :: "puzzle \<Rightarrow> bool" where
  "puzzleFull P = (puzzleOk P \<and> permsCover P \<and> totalBInPuzzle P = flaggedPlaced P 16)"

text \<open>
  A grid that solves \<open>irregularInput\<close>.
\<close>

definition irregularSolution :: "string list list" where
  "irregularSolution =
     [[''AX'', ''B'', ''B'', ''B''], [''AX'', ''B'', ''B'', ''B''],
      [''AX'', ''B'', ''B'', ''B''], [''B'', ''AX'', ''B'', ''B''],
      [''B'', ''AX'', ''B'', ''B''], [''B'', ''AX'', ''B'', ''B''],
      [''B'', ''B'', ''AX'', ''B''], [''B'', ''B'', ''AX'', ''B''],
      [''B'', ''B'', ''AX'', ''B''], [''B'', ''B'', ''AX'', ''B''],
      [''B'', ''B'', ''B'', ''AX''], [''B'', ''B'', ''B'', ''AX''],
      [''B'', ''B'', ''B'', ''AX''], [''B'', ''B'', ''B'', ''AX''],
      [''AX'', ''AX'', ''B'', ''B''], [''A'', ''B'', ''B'', ''B'']]"

text \<open>
  An input with sixteen marked words, two rows of four marked words and six
  rows without any, and a grid that solves it.
\<close>

definition divergentInput :: "string list" where
  "divergentInput =
     [''BX B A A'', ''B A A A'', ''B A A A'', ''BX A A A'',
      ''AX A A A'', ''BX B A A'', ''B A A A'', ''B B B B'',
      ''AX AX AX AX'', ''BX B A A'', ''AX A A A'', ''B A A A'',
      ''AX AX AX AX'', ''AX A A A'', ''AX A A A'', ''B A A A'']"

definition divergentSolution :: "string list list" where
  "divergentSolution =
     [[''BX'', ''B'', ''A'', ''A''], [''B'', ''A'', ''A'', ''A''],
      [''B'', ''A'', ''A'', ''A''], [''A'', ''BX'', ''A'', ''A''],
      [''AX'', ''A'', ''A'', ''A''], [''A'', ''B'', ''BX'', ''A''],
      [''A'', ''A'', ''B'', ''A''], [''B'', ''B'', ''B'', ''B''],
      [''AX'', ''AX'', ''AX'', ''AX''], [''A'', ''A'', ''B'', ''BX''],
      [''A'', ''AX'', ''A'', ''A''], [''A'', ''A'', ''A'', ''B''],
      [''AX'', ''AX'', ''AX'', ''AX''], [''A'', ''A'', ''AX'', ''A''],
      [''A'', ''A'', ''A'', ''AX''], [''A'', ''A'', ''A'', ''B'']]"

section \<open>Facts about the primitives\<close>

lemma mset_insertBy [simp]: "mset (insertBy cmp x ys) = add_mset x (mset ys)"
  by (induction ys) auto

lemma mset_sortBy [simp]: "mset (sortBy cmp xs) = mset xs"
  by (induction xs) (auto simp: sortBy_def)

lemma length_sortBy [simp]: "length (sortBy cmp xs) = length xs"
  using mset_sortBy [of cmp xs] by (metis size_mset)

lemma set_sortBy [simp]: "set (sortBy cmp xs) = set xs"
  using mset_sortBy [of cmp xs] by (metis set_mset_mset)

lemma length_parseLine [simp]: "length (parseLine l) = length (splitWs (trim l))"
  by (simp add: parseLine_def)

lemma set_parseLine [simp]: "set (parseLine l) = set (splitWs (trim l))"
  by (simp add: parseLine_def)

lemma mset_parseLine [simp]: "mset (parseLine l) = mset (splitWs (trim l))"
  by (simp add: parseLine_def)

section \<open>Input validation\<close>

lemma find_None_row4:
  "(find (\<lambda>w. \<not> allowedWord w) (map (\<lambda>k. r ! k) [0..<4]) = None) = (\<forall>k<4. allowedWord (r ! k))"
  by (auto simp: find_None_iff)

lemma firstInvalidFrom_None:
  "(firstInvalidFrom rs i n = None) = (\<forall>j<n. \<forall>k<4. allowedWord (rs ! (i + j) ! k))"
proof (induction n arbitrary: i)
  case 0
  then show ?case by simp
next
  case (Suc n)
  show ?case
  proof (cases "find (\<lambda>w. \<not> allowedWord w) (map (\<lambda>k. rs ! i ! k) [0..<4])")
    case None
    then have row: "\<forall>k<4. allowedWord (rs ! i ! k)"
      using find_None_row4 [of "rs ! i"] by simp
    have "(\<forall>j<Suc n. \<forall>k<4. allowedWord (rs ! (i + j) ! k)) =
          (\<forall>j<n. \<forall>k<4. allowedWord (rs ! (Suc i + j) ! k))"
    proof
      assume a: "\<forall>j<Suc n. \<forall>k<4. allowedWord (rs ! (i + j) ! k)"
      show "\<forall>j<n. \<forall>k<4. allowedWord (rs ! (Suc i + j) ! k)"
      proof (intro allI impI)
        fix j k assume "j < n" "k < (4::nat)"
        with a have "allowedWord (rs ! (i + Suc j) ! k)" by blast
        then show "allowedWord (rs ! (Suc i + j) ! k)" by simp
      qed
    next
      assume a: "\<forall>j<n. \<forall>k<4. allowedWord (rs ! (Suc i + j) ! k)"
      show "\<forall>j<Suc n. \<forall>k<4. allowedWord (rs ! (i + j) ! k)"
      proof (intro allI impI)
        fix j k assume j: "j < Suc n" and k: "k < (4::nat)"
        show "allowedWord (rs ! (i + j) ! k)"
        proof (cases j)
          case 0
          with row k show ?thesis by simp
        next
          case (Suc j')
          with j a k have "allowedWord (rs ! (Suc i + j') ! k)" by simp
          with Suc show ?thesis by simp
        qed
      qed
    qed
    with None Suc.IH [of "i + 1"] show ?thesis by simp
  next
    case (Some w)
    then have "\<not> (\<forall>k<4. allowedWord (rs ! i ! k))"
      using find_None_row4 [of "rs ! i"] by simp
    then obtain k where "k < 4" "\<not> allowedWord (rs ! i ! k)" by blast
    then have "\<not> (\<forall>j<Suc n. \<forall>k<4. allowedWord (rs ! (i + j) ! k))"
      by (metis add.right_neutral zero_less_Suc)
    with Some show ?thesis by simp
  qed
qed

lemma all_words_allowed:
  assumes len: "length rs = 16" and four: "\<forall>r\<in>set rs. length r = 4"
  shows "(firstInvalid rs = None) = (\<forall>r\<in>set rs. \<forall>w\<in>set r. allowedWord w)"
proof -
  have "(\<forall>j<16. \<forall>k<4. allowedWord (rs ! j ! k)) = (\<forall>r\<in>set rs. \<forall>w\<in>set r. allowedWord w)"
  proof
    assume a: "\<forall>j<16. \<forall>k<4. allowedWord (rs ! j ! k)"
    show "\<forall>r\<in>set rs. \<forall>w\<in>set r. allowedWord w"
    proof (intro ballI)
      fix r w assume r: "r \<in> set rs" and w: "w \<in> set r"
      from r len obtain j where j: "j < 16" "rs ! j = r" by (metis in_set_conv_nth)
      from w four r obtain k where k: "k < 4" "r ! k = w" by (metis in_set_conv_nth)
      from a j k show "allowedWord w" by auto
    qed
  next
    assume a: "\<forall>r\<in>set rs. \<forall>w\<in>set r. allowedWord w"
    show "\<forall>j<16. \<forall>k<4. allowedWord (rs ! j ! k)"
    proof (intro allI impI)
      fix j k :: nat assume j: "j < 16" and k: "k < 4"
      from j len have r: "rs ! j \<in> set rs" by simp
      with four k have "rs ! j ! k \<in> set (rs ! j)" by simp
      with a r show "allowedWord (rs ! j ! k)" by blast
    qed
  qed
  then show ?thesis
    by (simp add: firstInvalid_def firstInvalidFrom_None)
qed

lemma solveWith_malformed_iff:
  "(\<exists>e. solveWith enc ls = Inl e \<and> isMalformedInput e) =
   (length ls \<noteq> 16 \<or> (\<exists>l\<in>set ls. length (splitWs (trim l)) \<noteq> 4)
      \<or> (\<exists>l\<in>set ls. \<exists>w\<in>set (splitWs (trim l)). \<not> allowedWord w))"
proof (cases "length ls = 16")
  case False
  then show ?thesis by (simp add: solveWith_def)
next
  case len: True
  show ?thesis
  proof (cases "\<forall>l\<in>set ls. length (splitWs (trim l)) = 4")
    case False
    then have "\<not> list_all (\<lambda>r. length r = 4) (map parseLine ls)"
      by (auto simp: list_all_iff)
    with len False show ?thesis by (simp add: solveWith_def)
  next
    case four: True
    then have four': "list_all (\<lambda>r. length r = 4) (map parseLine ls)"
      by (auto simp: list_all_iff)
    then have four'': "\<forall>r\<in>set (map parseLine ls). length r = 4"
      by (simp add: list_all_iff)
    have fi: "(firstInvalid (map parseLine ls) = None) =
              (\<forall>l\<in>set ls. \<forall>w\<in>set (splitWs (trim l)). allowedWord w)"
      using all_words_allowed [of "map parseLine ls"] len four'' by simp
    show ?thesis
    proof (cases "firstInvalid (map parseLine ls)")
      case None
      with fi len four four' show ?thesis
        by (auto simp: solveWith_def Let_def)
    next
      case (Some a)
      with fi have "\<not> (\<forall>l\<in>set ls. \<forall>w\<in>set (splitWs (trim l)). allowedWord w)" by simp
      with Some len four four' show ?thesis
        by (cases a) (auto simp: solveWith_def Let_def)
    qed
  qed
qed

text \<open>
  Claim C5.  \<open>baselineSolver\<close> fails with a malformed-input error exactly
  when the input does not have sixteen lines, or some line does not split
  into four words, or some word is not one of the labels A, B, AX, BX; an
  input that passes the three checks never raises such an error.
\<close>

theorem malformed_input_iff:
  "(\<exists>e. baselineSolver ls = Inl e \<and> isMalformedInput e) =
   (length ls \<noteq> 16 \<or> (\<exists>l\<in>set ls. length (splitWs (trim l)) \<noteq> 4)
      \<or> (\<exists>l\<in>set ls. \<exists>w\<in>set (splitWs (trim l)). \<not> allowedWord w))"
  unfolding baselineSolver_def by (rule solveWith_malformed_iff)

theorem malformed_input_iff_witness:
  "\<exists>e. baselineSolver [''AX A B'', ''A B AX BX''] = Inl e \<and> isMalformedInput e"
  using malformed_input_iff [of "[''AX A B'', ''A B AX BX'']"] by simp

section \<open>The bit-packed state key\<close>

text \<open>
  Claim C2.  The key of \<open>solvers/baseline.ts\<close> is meant to hold the
  position in bits 36 to 40 and the twelve bits of the X capacities from bit
  24 on, but the shifts are 32-bit: the capacity of the last column and the
  high bit of the third are shifted out, and the position is shifted by
  \<open>36 mod 32 = 4\<close>.  Two different states within the stated ranges, both
  at position 12, receive the same key.
\<close>

theorem encodeState_collision:
  "encodeState 12 \<lparr> XCapacity = [0, 0, 0, 4], BXCapacity = [1, 1, 1, 1], BCount = [2, 2, 1, 2],
                    finalArrangement = [], memo = Map.empty, trace = [] \<rparr>
   = encodeState 12 \<lparr> XCapacity = [0, 0, 4, 0], BXCapacity = [1, 1, 1, 1], BCount = [2, 2, 1, 2],
                    finalArrangement = [], memo = Map.empty, trace = [] \<rparr>"
  by code_simp

section \<open>The row order\<close>

lemma set_insertBy [simp]: "set (insertBy cmp x ys) = insert x (set ys)"
  using mset_insertBy [of cmp x ys] by (metis set_mset_mset set_mset_add_mset_insert)

lemma sorted_insertBy:
  assumes total: "\<And>x y. cmp x y \<le> 0 \<or> cmp y x \<le> 0"
    and trans: "\<And>x y z. cmp x y \<le> 0 \<Longrightarrow> cmp y z \<le> 0 \<Longrightarrow> cmp x z \<le> 0"
  shows "sorted_wrt (\<lambda>x y. cmp x y \<le> 0) ys \<Longrightarrow> sorted_wrt (\<lambda>x y. cmp x y \<le> 0) (insertBy cmp x ys)"
proof (induction ys)
  case Nil
  then show ?case by simp
next
  case (Cons y ys)
  show ?case
  proof (cases "cmp x y \<le> 0")
    case True
    with Cons.prems trans show ?thesis by auto
  next
    case False
    with total [of x y] have "cmp y x \<le> 0" by simp
    with False Cons show ?thesis by auto
  qed
qed

lemma sorted_sortBy:
  assumes total: "\<And>x y. cmp x y \<le> 0 \<or> cmp y x \<le> 0"
    and trans: "\<And>x y z. cmp x y \<le> 0 \<Longrightarrow> cmp y z \<le> 0 \<Longrightarrow> cmp x z \<le> 0"
  shows "sorted_wrt (\<lambda>x y. cmp x y \<le> 0) (sortBy cmp xs)"
proof (induction xs)
  case Nil
  then show ?case by (simp add: sortBy_def)
next
  case (Cons x xs)
  have "sortBy cmp (x # xs) = insertBy cmp x (sortBy cmp xs)"
    by (simp add: sortBy_def)
  with Cons sorted_insertBy [of cmp "sortBy cmp xs" x, OF total trans] show ?case
    by simp
qed

lemma cmpRow_le:
  "(cmpRow isBX tB i j \<le> 0) =
   ((isBX ! i \<and> \<not> isBX ! j) \<or> ((isBX ! i = isBX ! j) \<and> tB ! i \<le> tB ! j))"
  by (auto simp: cmpRow_def)

lemma sorted_mkRowOrder:
  "sorted_wrt (\<lambda>i j. cmpRow isBX tB i j \<le> 0) (mkRowOrder isBX tB)"
  unfolding mkRowOrder_def
proof (rule sorted_sortBy)
  fix x y show "cmpRow isBX tB x y \<le> 0 \<or> cmpRow isBX tB y x \<le> 0"
    by (auto simp: cmpRow_le)
next
  fix x y z
  assume "cmpRow isBX tB x y \<le> 0" "cmpRow isBX tB y z \<le> 0"
  then show "cmpRow isBX tB x z \<le> 0"
    by (auto simp: cmpRow_le)
qed

lemma mset_mkRowOrder [simp]: "mset (mkRowOrder isBX tB) = mset [0..<16]"
  by (simp add: mkRowOrder_def)

lemma length_mkRowOrder [simp]: "length (mkRowOrder isBX tB) = 16"
  by (simp add: mkRowOrder_def)

lemma set_mkRowOrder [simp]: "set (mkRowOrder isBX tB) = {0..<16}"
  by (simp add: mkRowOrder_def)

lemma distinct_mkRowOrder [simp]: "distinct (mkRowOrder isBX tB)"
  using mset_mkRowOrder [of isBX tB] by (metis distinct_upt mset_eq_imp_distinct_iff)

lemma rowOrder_mkPuzzle [simp]:
  "rowOrder (mkPuzzle rs) =
   mkRowOrder (map (\<lambda>i. rs ! i ! 0 = ''BX'') [0..<16]) (map (\<lambda>i. countB (rs ! i)) [0..<16])"
  by (simp add: mkPuzzle_def Let_def)

lemma rowOrder_lt16: "a < 16 \<Longrightarrow> rowOrder (mkPuzzle rs) ! a < 16"
proof -
  assume "a < 16"
  then have "rowOrder (mkPuzzle rs) ! a \<in> set (rowOrder (mkPuzzle rs))"
    by (simp del: set_mkRowOrder)
  then show ?thesis by simp
qed

text \<open>
  Claim C8.  The row order is a field of the puzzle data, computed from the
  parsed rows before \<open>assignRow\<close> is first called and never changed by the
  search.  It is a permutation of the sixteen row indices; a row whose first
  word is BX never comes after a row whose first word is not BX (so every BX
  row precedes every AX row), and of two rows of the same group the earlier
  one has at most as many words containing B as the later one.
\<close>

theorem rowOrder_sorted:
  assumes ab: "a < b" and b: "b < 16"
  shows "(let ord = rowOrder (mkPuzzle rs); i = ord ! a; j = ord ! b
          in i < 16 \<and> j < 16 \<and> mset ord = mset [0..<16]
             \<and> (rs ! j ! 0 = ''BX'' \<longrightarrow> rs ! i ! 0 = ''BX'')
             \<and> ((rs ! i ! 0 = ''BX'') = (rs ! j ! 0 = ''BX'') \<longrightarrow> countB (rs ! i) \<le> countB (rs ! j)))"
proof -
  define isBX where "isBX = map (\<lambda>i. rs ! i ! 0 = ''BX'') [0..<16]"
  define tB where "tB = map (\<lambda>i. countB (rs ! i)) [0..<16]"
  define ord where "ord = rowOrder (mkPuzzle rs)"
  have ord: "ord = mkRowOrder isBX tB"
    by (simp add: ord_def isBX_def tB_def)
  from ab b have a: "a < 16" by simp
  have i: "ord ! a < 16" and j: "ord ! b < 16"
    using rowOrder_lt16 [OF a, of rs] rowOrder_lt16 [OF b, of rs] by (simp_all add: ord_def)
  have "sorted_wrt (\<lambda>i j. cmpRow isBX tB i j \<le> 0) ord"
    unfolding ord by (rule sorted_mkRowOrder)
  with ab b have le: "cmpRow isBX tB (ord ! a) (ord ! b) \<le> 0"
    by (simp add: sorted_wrt_iff_nth_less ord)
  from i have ia: "isBX ! (ord ! a) = (rs ! (ord ! a) ! 0 = ''BX'')"
    and ta: "tB ! (ord ! a) = countB (rs ! (ord ! a))"
    by (simp_all add: isBX_def tB_def del: upt_Suc)
  from j have jb: "isBX ! (ord ! b) = (rs ! (ord ! b) ! 0 = ''BX'')"
    and tb: "tB ! (ord ! b) = countB (rs ! (ord ! b))"
    by (simp_all add: isBX_def tB_def del: upt_Suc)
  have m: "mset ord = mset [0..<16]" by (simp add: ord)
  from le ia ta jb tb i j m show ?thesis
    unfolding Let_def ord_def [symmetric] cmpRow_le by auto
qed

section \<open>The equations of the search, branch by branch\<close>

lemma assignRow_final: "assignRow enc P 16 s0 = (finalCheck (enter 16 s0), enter 16 s0)"
  by (simp add: assignRow.simps Let_def)

lemma assignRow_beyond: "16 < pos \<Longrightarrow> assignRow enc P pos s0 = (False, enter pos s0)"
  by (simp add: assignRow.simps Let_def)

lemma assignRow_step:
  "pos < 16 \<Longrightarrow> assignRow enc P pos s0 =
     (case memo (enter pos s0) (enc pos (enter pos s0)) of
        Some b \<Rightarrow> (b, enter pos s0)
      | None \<Rightarrow> colLoop enc P pos (enc pos (enter pos s0)) 0 (enter pos s0))"
  by (simp add: assignRow.simps Let_def)

lemma colLoop_done:
  "4 \<le> colX \<Longrightarrow> colLoop enc P pos k colX s = (False, s\<lparr>memo := (memo s)(k \<mapsto> False)\<rparr>)"
  by (simp add: colLoop.simps)

lemma colLoop_skip:
  "colX < 4 \<Longrightarrow> \<not> canPlaceX P pos colX s \<Longrightarrow>
   colLoop enc P pos k colX s = colLoop enc P pos k (colX + 1) s"
  by (subst colLoop.simps) (auto simp: canPlaceX_def Let_def)

lemma colLoop_try:
  "colX < 4 \<Longrightarrow> canPlaceX P pos colX s \<Longrightarrow>
   colLoop enc P pos k colX s =
     (let r = permLoop enc P pos colX (rowNonXPerms P ! (rowOrder P ! pos))
                (placeX P pos (rowOrder P ! pos) colX s)
      in if fst r then (True, (snd r)\<lparr>memo := (memo (snd r))(k \<mapsto> True)\<rparr>)
         else colLoop enc P pos k (colX + 1)
                (revertX colX (XCapacity s ! colX) (BXCapacity s ! colX) (BCount s) (snd r)))"
  by (subst colLoop.simps) (auto simp: canPlaceX_def Let_def)

lemma permLoop_Nil: "permLoop enc P pos colX [] s = (False, s)"
  by (simp add: permLoop.simps)

lemma permLoop_Cons:
  "permLoop enc P pos colX (p3 # rest) s =
     (let s1 = place3 P (rowOrder P ! pos) colX p3 s
      in if pruneValid P pos s1
         then (let r = assignRow enc P (pos + 1) s1
               in if fst r then (True, snd r)
                  else permLoop enc P pos colX rest (restoreB (BCount s) (snd r)))
         else permLoop enc P pos colX rest (restoreB (BCount s) s1))"
  by (simp add: permLoop.simps Let_def)

lemma colLoop_found:
  "colX < 4 \<Longrightarrow> canPlaceX P pos colX s \<Longrightarrow>
   fst (permLoop enc P pos colX (rowNonXPerms P ! (rowOrder P ! pos))
          (placeX P pos (rowOrder P ! pos) colX s)) \<Longrightarrow>
   colLoop enc P pos k colX s =
     (True, (snd (permLoop enc P pos colX (rowNonXPerms P ! (rowOrder P ! pos))
                    (placeX P pos (rowOrder P ! pos) colX s)))
            \<lparr>memo := (memo (snd (permLoop enc P pos colX (rowNonXPerms P ! (rowOrder P ! pos))
                                    (placeX P pos (rowOrder P ! pos) colX s))))(k \<mapsto> True)\<rparr>)"
  by (simp add: colLoop_try Let_def)

lemma colLoop_next:
  "colX < 4 \<Longrightarrow> canPlaceX P pos colX s \<Longrightarrow>
   \<not> fst (permLoop enc P pos colX (rowNonXPerms P ! (rowOrder P ! pos))
            (placeX P pos (rowOrder P ! pos) colX s)) \<Longrightarrow>
   colLoop enc P pos k colX s =
     colLoop enc P pos k (colX + 1)
       (revertX colX (XCapacity s ! colX) (BXCapacity s ! colX) (BCount s)
          (snd (permLoop enc P pos colX (rowNonXPerms P ! (rowOrder P ! pos))
                  (placeX P pos (rowOrder P ! pos) colX s))))"
  by (simp add: colLoop_try Let_def)

lemma permLoop_pruned:
  "\<not> pruneValid P pos (place3 P (rowOrder P ! pos) colX p3 s) \<Longrightarrow>
   permLoop enc P pos colX (p3 # rest) s =
     permLoop enc P pos colX rest (restoreB (BCount s) (place3 P (rowOrder P ! pos) colX p3 s))"
  by (simp add: permLoop_Cons Let_def)

lemma permLoop_found:
  "pruneValid P pos (place3 P (rowOrder P ! pos) colX p3 s) \<Longrightarrow>
   fst (assignRow enc P (pos + 1) (place3 P (rowOrder P ! pos) colX p3 s)) \<Longrightarrow>
   permLoop enc P pos colX (p3 # rest) s =
     (True, snd (assignRow enc P (pos + 1) (place3 P (rowOrder P ! pos) colX p3 s)))"
  by (simp add: permLoop_Cons Let_def)

lemma permLoop_next:
  "pruneValid P pos (place3 P (rowOrder P ! pos) colX p3 s) \<Longrightarrow>
   \<not> fst (assignRow enc P (pos + 1) (place3 P (rowOrder P ! pos) colX p3 s)) \<Longrightarrow>
   permLoop enc P pos colX (p3 # rest) s =
     permLoop enc P pos colX rest
       (restoreB (BCount s) (snd (assignRow enc P (pos + 1) (place3 P (rowOrder P ! pos) colX p3 s))))"
  by (simp add: permLoop_Cons Let_def)

lemma assignRow_hit:
  "pos < 16 \<Longrightarrow> memo s0 (enc pos (enter pos s0)) = Some b \<Longrightarrow>
   assignRow enc P pos s0 = (b, enter pos s0)"
  by (simp add: assignRow_step enter_def)

lemma assignRow_miss:
  "pos < 16 \<Longrightarrow> memo s0 (enc pos (enter pos s0)) = None \<Longrightarrow>
   assignRow enc P pos s0 = colLoop enc P pos (enc pos (enter pos s0)) 0 (enter pos s0)"
  by (simp add: assignRow_step enter_def)

lemma search_induct [case_names assignRow colLoop permNil permCons]:
  fixes enc :: "nat \<Rightarrow> search_state \<Rightarrow> string" and P :: puzzle
  assumes A: "\<And>pos s0.
      (\<lbrakk>pos < 16; memo (enter pos s0) (enc pos (enter pos s0)) = None\<rbrakk>
         \<Longrightarrow> Q pos (enc pos (enter pos s0)) 0 (enter pos s0)) \<Longrightarrow> A pos s0"
    and Q: "\<And>pos k colX s.
      (\<lbrakk>colX < 4; \<not> canPlaceX P pos colX s\<rbrakk> \<Longrightarrow> Q pos k (colX + 1) s) \<Longrightarrow>
      (\<lbrakk>colX < 4; canPlaceX P pos colX s\<rbrakk>
         \<Longrightarrow> R pos colX (rowNonXPerms P ! (rowOrder P ! pos)) (placeX P pos (rowOrder P ! pos) colX s)) \<Longrightarrow>
      (\<lbrakk>colX < 4; canPlaceX P pos colX s;
        \<not> fst (permLoop enc P pos colX (rowNonXPerms P ! (rowOrder P ! pos))
                 (placeX P pos (rowOrder P ! pos) colX s))\<rbrakk>
         \<Longrightarrow> Q pos k (colX + 1)
               (revertX colX (XCapacity s ! colX) (BXCapacity s ! colX) (BCount s)
                  (snd (permLoop enc P pos colX (rowNonXPerms P ! (rowOrder P ! pos))
                         (placeX P pos (rowOrder P ! pos) colX s))))) \<Longrightarrow>
      Q pos k colX s"
    and RN: "\<And>pos colX s. R pos colX [] s"
    and RC: "\<And>pos colX p3 rest s.
      (pruneValid P pos (place3 P (rowOrder P ! pos) colX p3 s)
         \<Longrightarrow> A (pos + 1) (place3 P (rowOrder P ! pos) colX p3 s)) \<Longrightarrow>
      (\<lbrakk>pruneValid P pos (place3 P (rowOrder P ! pos) colX p3 s);
        \<not> fst (assignRow enc P (pos + 1) (place3 P (rowOrder P ! pos) colX p3 s))\<rbrakk>
         \<Longrightarrow> R pos colX rest
               (restoreB (BCount s)
                  (snd (assignRow enc P (pos + 1) (place3 P (rowOrder P ! pos) colX p3 s))))) \<Longrightarrow>
      (\<not> pruneValid P pos (place3 P (rowOrder P ! pos) colX p3 s)
         \<Longrightarrow> R pos colX rest (restoreB (BCount s) (place3 P (rowOrder P ! pos) colX p3 s))) \<Longrightarrow>
      R pos colX (p3 # rest) s"
  shows "A pos s0" and "Q pos k colX s" and "R pos colX ps s"
proof -
  have "A' enc' P' pos s0" and "Q' enc' P' pos k colX s" and "R' enc' P' pos colX ps s"
    if "A' = (\<lambda>e p. if e = enc \<and> p = P then A else (\<lambda>_ _. True))"
      and "Q' = (\<lambda>e p. if e = enc \<and> p = P then Q else (\<lambda>_ _ _ _. True))"
      and "R' = (\<lambda>e p. if e = enc \<and> p = P then R else (\<lambda>_ _ _ _. True))"
    for A' Q' R' enc' P'
  proof (induction enc' P' pos s0 and enc' P' pos k colX s and enc' P' pos colX ps s
      rule: assignRow_colLoop_permLoop.induct)
    case (1 enc' P' pos s0)
    show ?case
    proof (cases "enc' = enc \<and> P' = P")
      case True
      have "A pos s0"
      proof (rule A)
        assume "pos < 16" "memo (enter pos s0) (enc pos (enter pos s0)) = None"
        with 1 True that show "Q pos (enc pos (enter pos s0)) 0 (enter pos s0)"
          by (auto simp: enter_def)
      qed
      with True that show ?thesis by simp
    next
      case False
      with that show ?thesis by auto
    qed
  next
    case (2 enc' P' pos k colX s)
    show ?case
    proof (cases "enc' = enc \<and> P' = P")
      case True
      have "Q pos k colX s"
      proof (rule Q)
        assume "colX < 4" "\<not> canPlaceX P pos colX s"
        with 2(1,2) True that show "Q pos k (colX + 1) s"
          by (auto simp: canPlaceX_def)
      next
        assume "colX < 4" "canPlaceX P pos colX s"
        with 2(3) True that
        show "R pos colX (rowNonXPerms P ! (rowOrder P ! pos)) (placeX P pos (rowOrder P ! pos) colX s)"
          by (auto simp: canPlaceX_def)
      next
        assume "colX < 4" "canPlaceX P pos colX s"
          "\<not> fst (permLoop enc P pos colX (rowNonXPerms P ! (rowOrder P ! pos))
                 (placeX P pos (rowOrder P ! pos) colX s))"
        with 2(4) True that
        show "Q pos k (colX + 1)
               (revertX colX (XCapacity s ! colX) (BXCapacity s ! colX) (BCount s)
                  (snd (permLoop enc P pos colX (rowNonXPerms P ! (rowOrder P ! pos))
                         (placeX P pos (rowOrder P ! pos) colX s))))"
          by (auto simp: canPlaceX_def)
      qed
      with True that show ?thesis by simp
    next
      case False
      with that show ?thesis by auto
    qed
  next
    case (3 enc' P' pos colX s)
    with that RN show ?case by auto
  next
    case (4 enc' P' pos colX p3 rest s)
    show ?case
    proof (cases "enc' = enc \<and> P' = P")
      case True
      have "R pos colX (p3 # rest) s"
      proof (rule RC)
        assume "pruneValid P pos (place3 P (rowOrder P ! pos) colX p3 s)"
        with 4(1) True that show "A (pos + 1) (place3 P (rowOrder P ! pos) colX p3 s)"
          by auto
      next
        assume "pruneValid P pos (place3 P (rowOrder P ! pos) colX p3 s)"
          "\<not> fst (assignRow enc P (pos + 1) (place3 P (rowOrder P ! pos) colX p3 s))"
        with 4(2) True that
        show "R pos colX rest
               (restoreB (BCount s)
                  (snd (assignRow enc P (pos + 1) (place3 P (rowOrder P ! pos) colX p3 s))))"
          by auto
      next
        assume "\<not> pruneValid P pos (place3 P (rowOrder P ! pos) colX p3 s)"
        with 4(3) True that
        show "R pos colX rest (restoreB (BCount s) (place3 P (rowOrder P ! pos) colX p3 s))"
          by auto
      qed
      with True that show ?thesis by simp
    next
      case False
      with that show ?thesis by auto
    qed
  qed
  from this [of _ _ _ enc P, OF refl refl refl]
  show "A pos s0" and "Q pos k colX s" and "R pos colX ps s" by simp_all
qed

section \<open>The effect of the placement steps on the fields\<close>

lemma upt3: "[0..<3] = [0, 1, 2]"
  by (simp add: upt_rec)

lemma upt4: "[0..<4] = [0, 1, 2, 3]"
  by (simp add: upt_rec)

lemma enter_fields [simp]:
  "XCapacity (enter pos s) = XCapacity s"
  "BXCapacity (enter pos s) = BXCapacity s"
  "BCount (enter pos s) = BCount s"
  "finalArrangement (enter pos s) = finalArrangement s"
  "memo (enter pos s) = memo s"
  "trace (enter pos s) = Enter pos (XCapacity s) (BXCapacity s) (BCount s) # trace s"
  by (simp_all add: enter_def)

lemma placeX_fields [simp]:
  "XCapacity (placeX P pos r c s) = (XCapacity s)[c := XCapacity s ! c - 1]"
  "BXCapacity (placeX P pos r c s) =
     (if xIsBX P ! r then (BXCapacity s)[c := BXCapacity s ! c - 1] else BXCapacity s)"
  "BCount (placeX P pos r c s) =
     (if hasB P ! r ! 0 then (BCount s)[c := BCount s ! c + 1] else BCount s)"
  "finalArrangement (placeX P pos r c s) = setCell (finalArrangement s) r c (rows P ! r ! 0)"
  "memo (placeX P pos r c s) = memo s"
  by (simp_all add: placeX_def Let_def)

lemma placeX_trace [simp]:
  "trace (placeX P pos r c s) =
     PlaceX pos c (XCapacity (placeX P pos r c s)) (BXCapacity (placeX P pos r c s))
       (BCount (placeX P pos r c s)) # trace s"
  by (simp add: placeX_def Let_def)

lemma placeOther_fields [simp]:
  "XCapacity (placeOther P r oc p3 s i3) = XCapacity s"
  "BXCapacity (placeOther P r oc p3 s i3) = BXCapacity s"
  "memo (placeOther P r oc p3 s i3) = memo s"
  "trace (placeOther P r oc p3 s i3) = trace s"
  "length (BCount (placeOther P r oc p3 s i3)) = length (BCount s)"
  by (simp_all add: placeOther_def Let_def)

lemma place3_fields [simp]:
  "XCapacity (place3 P r colX p3 s) = XCapacity s"
  "BXCapacity (place3 P r colX p3 s) = BXCapacity s"
  "memo (place3 P r colX p3 s) = memo s"
  "trace (place3 P r colX p3 s) = trace s"
  "length (BCount (place3 P r colX p3 s)) = length (BCount s)"
  by (simp_all add: place3_def upt3)

lemma restore4:
  assumes "length b = 4" and "length old = 4"
  shows "foldl (\<lambda>b c. b[c := old ! c]) b [0..<4] = old"
proof (rule nth_equalityI)
  show "length (foldl (\<lambda>b c. b[c := old ! c]) b [0..<4]) = length old"
    using assms by (simp add: upt4)
next
  fix i assume "i < length (foldl (\<lambda>b c. b[c := old ! c]) b [0..<4])"
  then have "i < 4" using assms by (simp add: upt4)
  then have "i = 0 \<or> i = 1 \<or> i = 2 \<or> i = 3" by auto
  then show "foldl (\<lambda>b c. b[c := old ! c]) b [0..<4] ! i = old ! i"
    using assms by (auto simp: upt4)
qed

lemma restoreB_fields [simp]:
  "XCapacity (restoreB old s) = XCapacity s"
  "BXCapacity (restoreB old s) = BXCapacity s"
  "finalArrangement (restoreB old s) = finalArrangement s"
  "memo (restoreB old s) = memo s"
  "trace (restoreB old s) = trace s"
  "length (BCount (restoreB old s)) = length (BCount s)"
  by (simp_all add: restoreB_def upt4)

lemma restoreB_BCount:
  "length (BCount s) = 4 \<Longrightarrow> length old = 4 \<Longrightarrow> BCount (restoreB old s) = old"
  by (simp add: restoreB_def restore4)

lemma revertX_fields [simp]:
  "XCapacity (revertX c ox obx ob s) = (XCapacity s)[c := ox]"
  "BXCapacity (revertX c ox obx ob s) = (BXCapacity s)[c := obx]"
  "finalArrangement (revertX c ox obx ob s) = finalArrangement s"
  "memo (revertX c ox obx ob s) = memo s"
  "trace (revertX c ox obx ob s) = trace s"
  "length (BCount (revertX c ox obx ob s)) = length (BCount s)"
  by (simp_all add: revertX_def)

lemma revertX_BCount:
  "length (BCount s) = 4 \<Longrightarrow> length ob = 4 \<Longrightarrow> BCount (revertX c ox obx ob s) = ob"
  by (simp add: revertX_def restoreB_BCount)

section \<open>The arrays keep their four entries\<close>

lemma caps4_search:
  shows "caps4 s0 \<Longrightarrow> caps4 (snd (assignRow enc P pos s0))"
    and "caps4 s \<Longrightarrow> caps4 (snd (colLoop enc P pos k colX s))"
    and "caps4 s \<Longrightarrow> caps4 (snd (permLoop enc P pos colX ps s))"
proof (induction pos s0 and pos k colX s and pos colX ps s rule: search_induct [where enc = enc and P = P])
  case (assignRow pos s0)
  consider "pos < 16" | "pos = 16" | "16 < pos" by linarith
  then show ?case
  proof cases
    case 1
    with assignRow show ?thesis
      by (cases "memo s0 (enc pos (enter pos s0))") (auto simp: assignRow_hit assignRow_miss caps4_def)
  next
    case 2
    with assignRow show ?thesis by (simp add: assignRow_final caps4_def)
  next
    case 3
    with assignRow show ?thesis by (simp add: assignRow_beyond caps4_def)
  qed
next
  case (colLoop pos k colX s)
  show ?case
  proof (cases "colX < 4")
    case False
    with colLoop.prems show ?thesis by (simp add: colLoop_done caps4_def)
  next
    case c: True
    show ?thesis
    proof (cases "canPlaceX P pos colX s")
      case False
      with c colLoop show ?thesis by (simp add: colLoop_skip)
    next
      case True
      let ?r = "permLoop enc P pos colX (rowNonXPerms P ! (rowOrder P ! pos))
                  (placeX P pos (rowOrder P ! pos) colX s)"
      from colLoop.prems have "caps4 (placeX P pos (rowOrder P ! pos) colX s)"
        by (simp add: caps4_def)
      with colLoop.IH(2) c True have r: "caps4 (snd ?r)" by simp
      show ?thesis
      proof (cases "fst ?r")
        case True
        with c \<open>canPlaceX P pos colX s\<close> r show ?thesis
          by (simp add: colLoop_found caps4_def)
      next
        case False
        from r have "caps4 (revertX colX (XCapacity s ! colX) (BXCapacity s ! colX) (BCount s) (snd ?r))"
          by (simp add: caps4_def)
        with colLoop.IH(3) c True False show ?thesis
          by (simp add: colLoop_next)
      qed
    qed
  qed
next
  case (permNil pos colX s)
  then show ?case by (simp add: permLoop_Nil)
next
  case (permCons pos colX p3 rest s)
  let ?s1 = "place3 P (rowOrder P ! pos) colX p3 s"
  from permCons.prems have s1: "caps4 ?s1" by (simp add: caps4_def)
  show ?case
  proof (cases "pruneValid P pos ?s1")
    case False
    from s1 have "caps4 (restoreB (BCount s) ?s1)" by (simp add: caps4_def)
    with permCons.IH(3) False show ?thesis by (simp add: permLoop_pruned)
  next
    case True
    let ?r = "assignRow enc P (pos + 1) ?s1"
    from permCons.IH(1) True s1 have r: "caps4 (snd ?r)" by simp
    show ?thesis
    proof (cases "fst ?r")
      case True
      with \<open>pruneValid P pos ?s1\<close> r show ?thesis by (simp add: permLoop_found)
    next
      case False
      from r have "caps4 (restoreB (BCount s) (snd ?r))" by (simp add: caps4_def)
      with permCons.IH(2) True False show ?thesis by (simp add: permLoop_next)
    qed
  qed
qed

section \<open>Backtracking restores the column state\<close>

lemma restore_search:
  shows "caps4 s0 \<Longrightarrow> \<not> fst (assignRow enc P pos s0) \<Longrightarrow>
           columnState (snd (assignRow enc P pos s0)) = columnState s0"
    and "caps4 s \<Longrightarrow> \<not> fst (colLoop enc P pos k colX s) \<Longrightarrow>
           columnState (snd (colLoop enc P pos k colX s)) = columnState s"
    and "caps4 s \<Longrightarrow> \<not> fst (permLoop enc P pos colX ps s) \<Longrightarrow>
           columnState (snd (permLoop enc P pos colX ps s)) = columnState s"
proof (induction pos s0 and pos k colX s and pos colX ps s rule: search_induct [where enc = enc and P = P])
  case (assignRow pos s0)
  consider "pos < 16" | "pos = 16" | "16 < pos" by linarith
  then show ?case
  proof cases
    case 1
    with assignRow show ?thesis
      by (cases "memo s0 (enc pos (enter pos s0))")
        (auto simp: assignRow_hit assignRow_miss caps4_def columnState_def)
  next
    case 2
    then show ?thesis by (simp add: assignRow_final columnState_def)
  next
    case 3
    then show ?thesis by (simp add: assignRow_beyond columnState_def)
  qed
next
  case (colLoop pos k colX s)
  show ?case
  proof (cases "colX < 4")
    case False
    then show ?thesis by (simp add: colLoop_done columnState_def)
  next
    case c: True
    show ?thesis
    proof (cases "canPlaceX P pos colX s")
      case False
      with c colLoop show ?thesis by (simp add: colLoop_skip)
    next
      case can: True
      let ?sx = "placeX P pos (rowOrder P ! pos) colX s"
      let ?r = "permLoop enc P pos colX (rowNonXPerms P ! (rowOrder P ! pos)) ?sx"
      let ?s2 = "revertX colX (XCapacity s ! colX) (BXCapacity s ! colX) (BCount s) (snd ?r)"
      from colLoop.prems(1) have sx: "caps4 ?sx" by (simp add: caps4_def)
      show ?thesis
      proof (cases "fst ?r")
        case True
        with c can colLoop.prems(2) show ?thesis by (simp add: colLoop_found)
      next
        case False
        from colLoop.IH(2) [OF c can sx False]
        have r: "columnState (snd ?r) = columnState ?sx" .
        from sx caps4_search(3) have r4: "caps4 (snd ?r)" by blast
        have "XCapacity ?s2 = XCapacity s" "BXCapacity ?s2 = BXCapacity s"
          using r by (simp_all add: columnState_def)
        moreover have "BCount ?s2 = BCount s"
          using r4 colLoop.prems(1) by (simp add: revertX_BCount caps4_def)
        ultimately have s2: "columnState ?s2 = columnState s" and s24: "caps4 ?s2"
          using colLoop.prems(1) by (simp_all add: columnState_def caps4_def)
        from colLoop.prems(2) c can False have "\<not> fst (colLoop enc P pos k (colX + 1) ?s2)"
          by (simp add: colLoop_next)
        from colLoop.IH(3) [OF c can False s24 this] s2 c can False show ?thesis
          by (simp add: colLoop_next)
      qed
    qed
  qed
next
  case (permNil pos colX s)
  then show ?case by (simp add: permLoop_Nil)
next
  case (permCons pos colX p3 rest s)
  let ?s1 = "place3 P (rowOrder P ! pos) colX p3 s"
  from permCons.prems(1) have s1: "caps4 ?s1" by (simp add: caps4_def)
  show ?case
  proof (cases "pruneValid P pos ?s1")
    case False
    let ?s2 = "restoreB (BCount s) ?s1"
    from s1 permCons.prems(1) have s2: "columnState ?s2 = columnState s" and s24: "caps4 ?s2"
      by (simp_all add: columnState_def caps4_def restoreB_BCount)
    from permCons.prems(2) False have "\<not> fst (permLoop enc P pos colX rest ?s2)"
      by (simp add: permLoop_pruned)
    from permCons.IH(3) [OF False s24 this] s2 False show ?thesis
      by (simp add: permLoop_pruned)
  next
    case valid: True
    let ?r = "assignRow enc P (pos + 1) ?s1"
    let ?s2 = "restoreB (BCount s) (snd ?r)"
    show ?thesis
    proof (cases "fst ?r")
      case True
      with valid permCons.prems(2) show ?thesis by (simp add: permLoop_found)
    next
      case False
      from permCons.IH(1) [OF valid s1 False]
      have r: "columnState (snd ?r) = columnState ?s1" .
      from s1 caps4_search(1) have r4: "caps4 (snd ?r)" by blast
      from r r4 permCons.prems(1) have s2: "columnState ?s2 = columnState s" and s24: "caps4 ?s2"
        by (simp_all add: columnState_def caps4_def restoreB_BCount)
      from permCons.prems(2) valid False have "\<not> fst (permLoop enc P pos colX rest ?s2)"
        by (simp add: permLoop_next)
      from permCons.IH(2) [OF valid False s24 this] s2 valid False show ?thesis
        by (simp add: permLoop_next)
    qed
  qed
qed

text \<open>
  Claim C9.  When \<open>assignRow\<close> returns \<open>false\<close>, the three column arrays
  hold the values they had when it was called.
\<close>

theorem assignRow_false_restores:
  assumes "caps4 s" and "assignRow enc P pos s = (False, s')"
  shows "XCapacity s' = XCapacity s \<and> BXCapacity s' = BXCapacity s \<and> BCount s' = BCount s"
  using restore_search(1) [of s enc P pos] assms by (simp add: columnState_def)

section \<open>The capacities stay in their ranges\<close>

lemma inRange_placeX:
  assumes "inRange X BX" and "colX < 4" and "\<not> X ! colX \<le> 0" and "\<not> (isBX \<and> BX ! colX \<le> 0)"
    and "length X = 4" and "length BX = 4"
  shows "inRange (X[colX := X ! colX - 1]) (if isBX then BX[colX := BX ! colX - 1] else BX)"
  using assms unfolding inRange_def by (auto simp: nth_list_update)

lemma inRange_revert:
  assumes "inRange X' BX'" and "inRange X BX"
  shows "inRange (X'[colX := X ! colX]) (BX'[colX := BX ! colX])"
  unfolding inRange_def
proof (intro allI impI)
  fix c :: nat assume c: "c < 4"
  show "0 \<le> X'[colX := X ! colX] ! c \<and> X'[colX := X ! colX] ! c \<le> 4 \<and>
        0 \<le> BX'[colX := BX ! colX] ! c \<and> BX'[colX := BX ! colX] ! c \<le> 1"
  proof (cases "c = colX")
    case True
    have "X'[colX := X ! colX] ! c = X ! c \<or> X'[colX := X ! colX] ! c = X' ! c"
      using True by (cases "colX < length X'") (simp_all add: list_update_beyond)
    moreover have "BX'[colX := BX ! colX] ! c = BX ! c \<or> BX'[colX := BX ! colX] ! c = BX' ! c"
      using True by (cases "colX < length BX'") (simp_all add: list_update_beyond)
    ultimately show ?thesis using assms c unfolding inRange_def by metis
  next
    case False
    then show ?thesis using assms c unfolding inRange_def by simp
  qed
qed

lemma range_search:
  shows "caps4 s0 \<Longrightarrow> rangeInv s0 \<Longrightarrow> rangeInv (snd (assignRow enc P pos s0))"
    and "caps4 s \<Longrightarrow> rangeInv s \<Longrightarrow> rangeInv (snd (colLoop enc P pos k colX s))"
    and "caps4 s \<Longrightarrow> rangeInv s \<Longrightarrow> rangeInv (snd (permLoop enc P pos colX ps s))"
proof (induction pos s0 and pos k colX s and pos colX ps s rule: search_induct [where enc = enc and P = P])
  case (assignRow pos s0)
  from assignRow.prems have e: "rangeInv (enter pos s0)" "caps4 (enter pos s0)"
    by (simp_all add: rangeInv_def caps4_def)
  consider "pos < 16" | "pos = 16" | "16 < pos" by linarith
  then show ?case
  proof cases
    case 1
    with assignRow.IH e show ?thesis
      by (cases "memo s0 (enc pos (enter pos s0))") (auto simp: assignRow_hit assignRow_miss)
  next
    case 2
    with e show ?thesis by (simp add: assignRow_final)
  next
    case 3
    with e show ?thesis by (simp add: assignRow_beyond)
  qed
next
  case (colLoop pos k colX s)
  show ?case
  proof (cases "colX < 4")
    case False
    with colLoop.prems show ?thesis by (simp add: colLoop_done rangeInv_def)
  next
    case c: True
    show ?thesis
    proof (cases "canPlaceX P pos colX s")
      case False
      with c colLoop show ?thesis by (simp add: colLoop_skip)
    next
      case can: True
      let ?sx = "placeX P pos (rowOrder P ! pos) colX s"
      let ?r = "permLoop enc P pos colX (rowNonXPerms P ! (rowOrder P ! pos)) ?sx"
      let ?s2 = "revertX colX (XCapacity s ! colX) (BXCapacity s ! colX) (BCount s) (snd ?r)"
      from colLoop.prems(1) have sx4: "caps4 ?sx" by (simp add: caps4_def)
      have "inRange (XCapacity ?sx) (BXCapacity ?sx)"
        using inRange_placeX [of "XCapacity s" "BXCapacity s" colX "xIsBX P ! (rowOrder P ! pos)"]
          colLoop.prems c can
        by (simp add: rangeInv_def caps4_def canPlaceX_def)
      with colLoop.prems(2) have sx: "rangeInv ?sx"
        by (simp add: rangeInv_def)
      from colLoop.IH(2) [OF c can sx4 sx] have r: "rangeInv (snd ?r)" .
      from sx4 caps4_search(3) have r4: "caps4 (snd ?r)" by blast
      show ?thesis
      proof (cases "fst ?r")
        case True
        with c can r show ?thesis by (simp add: colLoop_found rangeInv_def)
      next
        case False
        from r4 have s24: "caps4 ?s2" by (simp add: caps4_def)
        have "inRange (XCapacity ?s2) (BXCapacity ?s2)"
          using inRange_revert [of "XCapacity (snd ?r)" "BXCapacity (snd ?r)" "XCapacity s" "BXCapacity s" colX]
            r colLoop.prems(2)
          by (simp add: rangeInv_def)
        with r have s2: "rangeInv ?s2" by (simp add: rangeInv_def)
        from colLoop.IH(3) [OF c can False s24 s2] c can False show ?thesis
          by (simp add: colLoop_next)
      qed
    qed
  qed
next
  case (permNil pos colX s)
  then show ?case by (simp add: permLoop_Nil)
next
  case (permCons pos colX p3 rest s)
  let ?s1 = "place3 P (rowOrder P ! pos) colX p3 s"
  from permCons.prems have s14: "caps4 ?s1" and s1: "rangeInv ?s1"
    by (simp_all add: caps4_def rangeInv_def)
  show ?case
  proof (cases "pruneValid P pos ?s1")
    case False
    from s14 s1 have "caps4 (restoreB (BCount s) ?s1)" "rangeInv (restoreB (BCount s) ?s1)"
      by (simp_all add: caps4_def rangeInv_def)
    with permCons.IH(3) [OF False] False show ?thesis by (simp add: permLoop_pruned)
  next
    case valid: True
    let ?r = "assignRow enc P (pos + 1) ?s1"
    from permCons.IH(1) [OF valid s14 s1] have r: "rangeInv (snd ?r)" .
    from s14 caps4_search(1) have r4: "caps4 (snd ?r)" by blast
    show ?thesis
    proof (cases "fst ?r")
      case True
      with valid r show ?thesis by (simp add: permLoop_found)
    next
      case False
      from r r4 have "caps4 (restoreB (BCount s) (snd ?r))" "rangeInv (restoreB (BCount s) (snd ?r))"
        by (simp_all add: caps4_def rangeInv_def)
      with permCons.IH(2) [OF valid False] valid False show ?thesis by (simp add: permLoop_next)
    qed
  qed
qed

lemma initState_caps4 [simp]: "caps4 initState"
  by (simp add: caps4_def initState_def)

lemma initState_rangeInv [simp]: "rangeInv initState"
  by (simp add: rangeInv_def initState_def inRange_def nth_Cons')

text \<open>
  Claim C10.  In one solver run, started from the initial arrays
  \<open>[4,4,4,4]\<close> and \<open>[1,1,1,1]\<close>, every recorded state (on each entry
  to \<open>assignRow\<close> and after each placement of an X word) and the state
  left at the end have every X capacity in \<open>0..4\<close> and every BX capacity in
  \<open>0..1\<close>.
\<close>

theorem capacities_in_range:
  "inRange (XCapacity (snd (assignRow enc P 0 initState)))
           (BXCapacity (snd (assignRow enc P 0 initState)))
   \<and> (\<forall>e\<in>set (trace (snd (assignRow enc P 0 initState))). eventInRange e)"
  using range_search(1) [OF initState_caps4 initState_rangeInv, of enc P 0]
  by (simp add: rangeInv_def)

section \<open>Both prunes pass before every recursive call\<close>

lemma pruneValid_pruneOk:
  "pruneValid P pos s = pruneOk P (pos + 1) (BCount s)"
  unfolding pruneValid_def pruneOk_def Let_def canStillReach4B_def isOverloadedB_def
  by (auto simp: list_all_iff Ball_def)

lemma pruned_search:
  shows "pos = 0 \<or> pruneOk P pos (BCount s0) \<Longrightarrow> prunedInv P s0 \<Longrightarrow>
           prunedInv P (snd (assignRow enc P pos s0))"
    and "prunedInv P s \<Longrightarrow> prunedInv P (snd (colLoop enc P pos k colX s))"
    and "prunedInv P s \<Longrightarrow> prunedInv P (snd (permLoop enc P pos colX ps s))"
proof (induction pos s0 and pos k colX s and pos colX ps s rule: search_induct [where enc = enc and P = P])
  case (assignRow pos s0)
  from assignRow.prems have e: "prunedInv P (enter pos s0)"
    by (auto simp: prunedInv_def)
  consider "pos < 16" | "pos = 16" | "16 < pos" by linarith
  then show ?case
  proof cases
    case 1
    with assignRow.IH e show ?thesis
      by (cases "memo s0 (enc pos (enter pos s0))") (auto simp: assignRow_hit assignRow_miss)
  next
    case 2
    with e show ?thesis by (simp add: assignRow_final)
  next
    case 3
    with e show ?thesis by (simp add: assignRow_beyond)
  qed
next
  case (colLoop pos k colX s)
  show ?case
  proof (cases "colX < 4")
    case False
    with colLoop.prems show ?thesis by (simp add: colLoop_done prunedInv_def)
  next
    case c: True
    show ?thesis
    proof (cases "canPlaceX P pos colX s")
      case False
      with c colLoop show ?thesis by (simp add: colLoop_skip)
    next
      case can: True
      let ?sx = "placeX P pos (rowOrder P ! pos) colX s"
      let ?r = "permLoop enc P pos colX (rowNonXPerms P ! (rowOrder P ! pos)) ?sx"
      let ?s2 = "revertX colX (XCapacity s ! colX) (BXCapacity s ! colX) (BCount s) (snd ?r)"
      from colLoop.prems have sx: "prunedInv P ?sx" by (simp add: prunedInv_def)
      from colLoop.IH(2) [OF c can sx] have r: "prunedInv P (snd ?r)" .
      show ?thesis
      proof (cases "fst ?r")
        case True
        with c can r show ?thesis by (simp add: colLoop_found prunedInv_def)
      next
        case False
        from r have s2: "prunedInv P ?s2" by (simp add: prunedInv_def)
        from colLoop.IH(3) [OF c can False s2] c can False show ?thesis
          by (simp add: colLoop_next)
      qed
    qed
  qed
next
  case (permNil pos colX s)
  then show ?case by (simp add: permLoop_Nil)
next
  case (permCons pos colX p3 rest s)
  let ?s1 = "place3 P (rowOrder P ! pos) colX p3 s"
  from permCons.prems have s1: "prunedInv P ?s1" by (simp add: prunedInv_def)
  show ?case
  proof (cases "pruneValid P pos ?s1")
    case False
    from s1 have "prunedInv P (restoreB (BCount s) ?s1)" by (simp add: prunedInv_def)
    with permCons.IH(3) [OF False] False show ?thesis by (simp add: permLoop_pruned)
  next
    case valid: True
    let ?r = "assignRow enc P (pos + 1) ?s1"
    from valid have "pruneOk P (pos + 1) (BCount ?s1)" by (simp only: pruneValid_pruneOk)
    with permCons.IH(1) [OF valid _ s1] have r: "prunedInv P (snd ?r)" by simp
    show ?thesis
    proof (cases "fst ?r")
      case True
      with valid r show ?thesis by (simp add: permLoop_found)
    next
      case False
      from r have "prunedInv P (restoreB (BCount s) (snd ?r))" by (simp add: prunedInv_def)
      with permCons.IH(2) [OF valid False] valid False show ?thesis by (simp add: permLoop_next)
    qed
  qed
qed

text \<open>
  Claim C7.  Every invocation of \<open>assignRow\<close> recorded in a solver run at
  a position \<open>p + 1\<close> was made with flagged counts for which both prunes
  pass: for every column the count plus the \<open>16 - (p + 1)\<close> rows still
  unplaced is at least 4, and the count does not exceed the number of
  flagged words of the puzzle minus 12.  A permutation for which a prune
  fails is left without a recursive call.
\<close>

theorem recursion_only_after_prunes:
  "(\<forall>e\<in>set (trace (snd (assignRow enc P 0 initState))). enterPruned P e)
   \<and> (\<not> pruneOk P (pos + 1) (BCount (place3 P (rowOrder P ! pos) colX p3 s)) \<longrightarrow>
        permLoop enc P pos colX (p3 # rest) s =
          permLoop enc P pos colX rest
            (restoreB (BCount s) (place3 P (rowOrder P ! pos) colX p3 s)))"
proof
  show "\<forall>e\<in>set (trace (snd (assignRow enc P 0 initState))). enterPruned P e"
    using pruned_search(1) [of 0 P initState enc] by (simp add: prunedInv_def initState_def)
next
  show "\<not> pruneOk P (pos + 1) (BCount (place3 P (rowOrder P ! pos) colX p3 s)) \<longrightarrow>
        permLoop enc P pos colX (p3 # rest) s =
          permLoop enc P pos colX rest
            (restoreB (BCount s) (place3 P (rowOrder P ! pos) colX p3 s))"
  proof
    assume "\<not> pruneOk P (pos + 1) (BCount (place3 P (rowOrder P ! pos) colX p3 s))"
    then have "\<not> pruneValid P pos (place3 P (rowOrder P ! pos) colX p3 s)"
      by (simp only: pruneValid_pruneOk not_False_eq_True)
    then show "permLoop enc P pos colX (p3 # rest) s =
          permLoop enc P pos colX rest
            (restoreB (BCount s) (place3 P (rowOrder P ! pos) colX p3 s))"
      by (rule permLoop_pruned)
  qed
qed

section \<open>The memo table before a solution is found\<close>

lemma noTrue_search:
  shows "noTrue (memo s0) \<Longrightarrow> \<not> fst (assignRow enc P pos s0) \<Longrightarrow>
           noTrue (memo (snd (assignRow enc P pos s0)))"
    and "noTrue (memo s) \<Longrightarrow> \<not> fst (colLoop enc P pos k colX s) \<Longrightarrow>
           noTrue (memo (snd (colLoop enc P pos k colX s)))"
    and "noTrue (memo s) \<Longrightarrow> \<not> fst (permLoop enc P pos colX ps s) \<Longrightarrow>
           noTrue (memo (snd (permLoop enc P pos colX ps s)))"
proof (induction pos s0 and pos k colX s and pos colX ps s rule: search_induct [where enc = enc and P = P])
  case (assignRow pos s0)
  consider "pos < 16" | "pos = 16" | "16 < pos" by linarith
  then show ?case
  proof cases
    case 1
    with assignRow show ?thesis
      by (cases "memo s0 (enc pos (enter pos s0))") (auto simp: assignRow_hit assignRow_miss)
  next
    case 2
    with assignRow.prems show ?thesis by (simp add: assignRow_final)
  next
    case 3
    with assignRow.prems show ?thesis by (simp add: assignRow_beyond)
  qed
next
  case (colLoop pos k colX s)
  show ?case
  proof (cases "colX < 4")
    case False
    with colLoop.prems show ?thesis by (simp add: colLoop_done noTrue_def)
  next
    case c: True
    show ?thesis
    proof (cases "canPlaceX P pos colX s")
      case False
      with c colLoop show ?thesis by (simp add: colLoop_skip)
    next
      case can: True
      let ?sx = "placeX P pos (rowOrder P ! pos) colX s"
      let ?r = "permLoop enc P pos colX (rowNonXPerms P ! (rowOrder P ! pos)) ?sx"
      let ?s2 = "revertX colX (XCapacity s ! colX) (BXCapacity s ! colX) (BCount s) (snd ?r)"
      from colLoop.prems(1) have sx: "noTrue (memo ?sx)" by simp
      show ?thesis
      proof (cases "fst ?r")
        case True
        with c can colLoop.prems(2) show ?thesis by (simp add: colLoop_found)
      next
        case False
        from colLoop.IH(2) [OF c can sx False] have s2: "noTrue (memo ?s2)" by simp
        from colLoop.prems(2) c can False have "\<not> fst (colLoop enc P pos k (colX + 1) ?s2)"
          by (simp add: colLoop_next)
        from colLoop.IH(3) [OF c can False s2 this] c can False show ?thesis
          by (simp add: colLoop_next)
      qed
    qed
  qed
next
  case (permNil pos colX s)
  then show ?case by (simp add: permLoop_Nil)
next
  case (permCons pos colX p3 rest s)
  let ?s1 = "place3 P (rowOrder P ! pos) colX p3 s"
  from permCons.prems(1) have s1: "noTrue (memo ?s1)" by simp
  show ?case
  proof (cases "pruneValid P pos ?s1")
    case False
    from s1 have s2: "noTrue (memo (restoreB (BCount s) ?s1))" by simp
    from permCons.prems(2) False
    have "\<not> fst (permLoop enc P pos colX rest (restoreB (BCount s) ?s1))"
      by (simp add: permLoop_pruned)
    from permCons.IH(3) [OF False s2 this] False show ?thesis by (simp add: permLoop_pruned)
  next
    case valid: True
    let ?r = "assignRow enc P (pos + 1) ?s1"
    show ?thesis
    proof (cases "fst ?r")
      case True
      with valid permCons.prems(2) show ?thesis by (simp add: permLoop_found)
    next
      case False
      from permCons.IH(1) [OF valid s1 False]
      have s2: "noTrue (memo (restoreB (BCount s) (snd ?r)))" by simp
      from permCons.prems(2) valid False
      have "\<not> fst (permLoop enc P pos colX rest (restoreB (BCount s) (snd ?r)))"
        by (simp add: permLoop_next)
      from permCons.IH(2) [OF valid False s2 this] valid False show ?thesis
        by (simp add: permLoop_next)
    qed
  qed
qed

section \<open>The grid during the search\<close>

lemma setCell_length [simp]: "length (setCell fa r c w) = length fa"
  by (simp add: setCell_def)

lemma setCell_row_length [simp]: "length (setCell fa r c w ! r') = length (fa ! r')"
  by (cases "r < length fa"; cases "r' = r") (simp_all add: setCell_def list_update_beyond)

lemma setCell_other_row: "r' \<noteq> r \<Longrightarrow> setCell fa r c w ! r' = fa ! r'"
  by (simp add: setCell_def)

lemma setCell_other_cell: "c' \<noteq> c \<Longrightarrow> setCell fa r c w ! r' ! c' = fa ! r' ! c'"
  by (cases "r < length fa"; cases "r' = r") (simp_all add: setCell_def list_update_beyond)

lemma setCell_same: "r < length fa \<Longrightarrow> c < length (fa ! r) \<Longrightarrow> setCell fa r c w ! r ! c = w"
  by (simp add: setCell_def)

lemma placeOther_fa [simp]:
  "finalArrangement (placeOther P r oc p3 s i3) =
     setCell (finalArrangement s) r (oc ! i3) (rows P ! r ! (p3 ! i3))"
  by (simp add: placeOther_def Let_def)

lemma placeOther_BCount:
  "BCount (placeOther P r oc p3 s i3) =
     (if hasB P ! r ! (p3 ! i3) then (BCount s)[oc ! i3 := BCount s ! (oc ! i3) + 1] else BCount s)"
  by (simp add: placeOther_def Let_def)

lemma place3_unfold:
  "place3 P r colX p3 s =
     placeOther P r (filter (\<lambda>c. c \<noteq> colX) [0, 1, 2, 3]) p3
       (placeOther P r (filter (\<lambda>c. c \<noteq> colX) [0, 1, 2, 3]) p3
          (placeOther P r (filter (\<lambda>c. c \<noteq> colX) [0, 1, 2, 3]) p3 s 0) 1) 2"
  by (simp add: place3_def upt3)

lemma otherCols_neq: "i3 < 3 \<Longrightarrow> filter (\<lambda>c. c \<noteq> colX) [0, 1, 2, 3 :: nat] ! i3 \<noteq> colX"
proof -
  assume i3: "i3 < 3"
  have "3 \<le> length (filter (\<lambda>c. c \<noteq> colX) [0, 1, 2, 3 :: nat])" by auto
  with i3 have "filter (\<lambda>c. c \<noteq> colX) [0, 1, 2, 3 :: nat] ! i3
                  \<in> set (filter (\<lambda>c. c \<noteq> colX) [0, 1, 2, 3 :: nat])"
    by (intro nth_mem) linarith
  then show ?thesis unfolding set_filter by blast
qed

lemma place3_grid_length [simp]:
  "length (finalArrangement (place3 P r colX p3 s)) = length (finalArrangement s)"
  "length (finalArrangement (place3 P r colX p3 s) ! r') = length (finalArrangement s ! r')"
  by (simp_all add: place3_unfold)

lemma place3_other_row:
  "r' \<noteq> r \<Longrightarrow> finalArrangement (place3 P r colX p3 s) ! r' = finalArrangement s ! r'"
  by (simp add: place3_unfold setCell_other_row)

lemma place3_X_cell:
  "finalArrangement (place3 P r colX p3 s) ! r' ! colX = finalArrangement s ! r' ! colX"
  by (simp add: place3_unfold setCell_other_cell otherCols_neq)

lemma placeX_other_row:
  "r' \<noteq> r \<Longrightarrow> finalArrangement (placeX P pos r colX s) ! r' = finalArrangement s ! r'"
  by (simp add: setCell_other_row)

lemma sameShape_refl [simp]: "sameShape g g"
  by (simp add: sameShape_def)

lemma sameShape_trans: "sameShape g'' g' \<Longrightarrow> sameShape g' g \<Longrightarrow> sameShape g'' g"
  by (simp add: sameShape_def)

lemma sameShape_setCell [simp]: "sameShape (setCell g r c w) g"
  by (simp add: sameShape_def)

lemma sameShape_place3 [simp]: "sameShape (finalArrangement (place3 P r colX p3 s)) (finalArrangement s)"
  by (simp add: sameShape_def)

lemma shape_search:
  shows "sameShape (finalArrangement (snd (assignRow enc P pos s0))) (finalArrangement s0)"
    and "sameShape (finalArrangement (snd (colLoop enc P pos k colX s))) (finalArrangement s)"
    and "sameShape (finalArrangement (snd (permLoop enc P pos colX ps s))) (finalArrangement s)"
proof (induction pos s0 and pos k colX s and pos colX ps s rule: search_induct [where enc = enc and P = P])
  case (assignRow pos s0)
  consider "pos < 16" | "pos = 16" | "16 < pos" by linarith
  then show ?case
  proof cases
    case 1
    with assignRow show ?thesis
      by (cases "memo s0 (enc pos (enter pos s0))") (auto simp: assignRow_hit assignRow_miss)
  next
    case 2
    then show ?thesis by (simp add: assignRow_final)
  next
    case 3
    then show ?thesis by (simp add: assignRow_beyond)
  qed
next
  case (colLoop pos k colX s)
  show ?case
  proof (cases "colX < 4")
    case False
    then show ?thesis by (simp add: colLoop_done)
  next
    case c: True
    show ?thesis
    proof (cases "canPlaceX P pos colX s")
      case False
      with c colLoop show ?thesis by (simp add: colLoop_skip)
    next
      case can: True
      let ?sx = "placeX P pos (rowOrder P ! pos) colX s"
      let ?r = "permLoop enc P pos colX (rowNonXPerms P ! (rowOrder P ! pos)) ?sx"
      let ?s2 = "revertX colX (XCapacity s ! colX) (BXCapacity s ! colX) (BCount s) (snd ?r)"
      from colLoop.IH(2) [OF c can]
      have r: "sameShape (finalArrangement (snd ?r)) (finalArrangement s)"
        using sameShape_trans [of _ "finalArrangement ?sx" "finalArrangement s"] by simp
      show ?thesis
      proof (cases "fst ?r")
        case True
        with c can r show ?thesis by (simp add: colLoop_found)
      next
        case False
        from colLoop.IH(3) [OF c can False] r
        have "sameShape (finalArrangement (snd (colLoop enc P pos k (colX + 1) ?s2))) (finalArrangement s)"
          using sameShape_trans [of _ "finalArrangement ?s2" "finalArrangement s"] by simp
        with c can False show ?thesis by (simp add: colLoop_next)
      qed
    qed
  qed
next
  case (permNil pos colX s)
  then show ?case by (simp add: permLoop_Nil)
next
  case (permCons pos colX p3 rest s)
  let ?s1 = "place3 P (rowOrder P ! pos) colX p3 s"
  show ?case
  proof (cases "pruneValid P pos ?s1")
    case False
    from permCons.IH(3) [OF False]
    have "sameShape (finalArrangement (snd (permLoop enc P pos colX rest (restoreB (BCount s) ?s1))))
            (finalArrangement s)"
      using sameShape_trans [of _ "finalArrangement ?s1" "finalArrangement s"] by simp
    with False show ?thesis by (simp add: permLoop_pruned)
  next
    case valid: True
    let ?r = "assignRow enc P (pos + 1) ?s1"
    from permCons.IH(1) [OF valid]
    have r: "sameShape (finalArrangement (snd ?r)) (finalArrangement s)"
      using sameShape_trans [of _ "finalArrangement ?s1" "finalArrangement s"] by simp
    show ?thesis
    proof (cases "fst ?r")
      case True
      with valid r show ?thesis by (simp add: permLoop_found)
    next
      case False
      from permCons.IH(2) [OF valid False] r
      have "sameShape (finalArrangement (snd (permLoop enc P pos colX rest (restoreB (BCount s) (snd ?r)))))
              (finalArrangement s)"
        using sameShape_trans [of _ "finalArrangement (snd ?r)" "finalArrangement s"] by simp
      with valid False show ?thesis by (simp add: permLoop_next)
    qed
  qed
qed

section \<open>The search writes only the rows still to be placed\<close>

lemma drop_rowOrder:
  "length ord = 16 \<Longrightarrow> pos < 16 \<Longrightarrow> drop pos ord = ord ! pos # drop (Suc pos) ord"
  by (simp add: Cons_nth_drop_Suc)

lemma rowOrder_not_later:
  assumes "length ord = 16" and "distinct ord" and "pos < 16"
  shows "ord ! pos \<notin> set (drop (Suc pos) ord)"
proof -
  from assms(2) have "distinct (drop pos ord)" by simp
  with drop_rowOrder [OF assms(1,3)] show ?thesis by simp
qed

lemma frame_search:
  assumes len: "length (rowOrder P) = 16" and dist: "distinct (rowOrder P)"
  shows "pos \<le> 16 \<Longrightarrow>
           \<forall>r. r \<notin> set (drop pos (rowOrder P)) \<longrightarrow>
             finalArrangement (snd (assignRow enc P pos s0)) ! r = finalArrangement s0 ! r"
    and "pos < 16 \<Longrightarrow>
           \<forall>r. r \<notin> set (drop pos (rowOrder P)) \<longrightarrow>
             finalArrangement (snd (colLoop enc P pos k colX s)) ! r = finalArrangement s ! r"
    and "pos < 16 \<Longrightarrow>
           (\<forall>r. r \<notin> set (drop pos (rowOrder P)) \<longrightarrow>
              finalArrangement (snd (permLoop enc P pos colX ps s)) ! r = finalArrangement s ! r)
           \<and> finalArrangement (snd (permLoop enc P pos colX ps s)) ! (rowOrder P ! pos) ! colX
               = finalArrangement s ! (rowOrder P ! pos) ! colX"
proof (induction pos s0 and pos k colX s and pos colX ps s rule: search_induct [where enc = enc and P = P])
  case (assignRow pos s0)
  consider "pos < 16" | "pos = 16" | "16 < pos" by linarith
  then show ?case
  proof cases
    case 1
    with assignRow show ?thesis
      by (cases "memo s0 (enc pos (enter pos s0))") (auto simp: assignRow_hit assignRow_miss)
  next
    case 2
    then show ?thesis by (simp add: assignRow_final)
  next
    case 3
    then show ?thesis by (simp add: assignRow_beyond)
  qed
next
  case (colLoop pos k colX s)
  note pos = \<open>pos < 16\<close>
  from drop_rowOrder [OF len pos]
  have here: "\<And>r. r \<notin> set (drop pos (rowOrder P)) \<Longrightarrow> r \<noteq> rowOrder P ! pos" by auto
  show ?case
  proof (cases "colX < 4")
    case False
    then show ?thesis by (simp add: colLoop_done)
  next
    case c: True
    show ?thesis
    proof (cases "canPlaceX P pos colX s")
      case False
      with c colLoop show ?thesis by (simp add: colLoop_skip)
    next
      case can: True
      let ?sx = "placeX P pos (rowOrder P ! pos) colX s"
      let ?r = "permLoop enc P pos colX (rowNonXPerms P ! (rowOrder P ! pos)) ?sx"
      let ?s2 = "revertX colX (XCapacity s ! colX) (BXCapacity s ! colX) (BCount s) (snd ?r)"
      from colLoop.IH(2) [OF c can pos] here
      have r: "\<forall>r. r \<notin> set (drop pos (rowOrder P)) \<longrightarrow>
                 finalArrangement (snd ?r) ! r = finalArrangement s ! r"
        by (simp add: setCell_other_row)
      show ?thesis
      proof (cases "fst ?r")
        case True
        with c can r show ?thesis by (simp add: colLoop_found)
      next
        case False
        from colLoop.IH(3) [OF c can False pos] r c can False show ?thesis
          by (simp add: colLoop_next)
      qed
    qed
  qed
next
  case (permNil pos colX s)
  then show ?case by (simp add: permLoop_Nil)
next
  case (permCons pos colX p3 rest s)
  note pos = \<open>pos < 16\<close>
  let ?row = "rowOrder P ! pos"
  let ?s1 = "place3 P ?row colX p3 s"
  from drop_rowOrder [OF len pos]
  have here: "\<And>r. r \<notin> set (drop pos (rowOrder P)) \<Longrightarrow> r \<noteq> ?row"
    and later: "\<And>r. r \<notin> set (drop pos (rowOrder P)) \<Longrightarrow> r \<notin> set (drop (pos + 1) (rowOrder P))"
    by auto
  have s1: "\<forall>r. r \<notin> set (drop pos (rowOrder P)) \<longrightarrow> finalArrangement ?s1 ! r = finalArrangement s ! r"
    using here by (simp add: place3_other_row)
  have s1x: "finalArrangement ?s1 ! ?row ! colX = finalArrangement s ! ?row ! colX"
    by (rule place3_X_cell)
  show ?case
  proof (cases "pruneValid P pos ?s1")
    case False
    from permCons.IH(3) [OF False pos] s1 s1x False show ?thesis
      by (simp add: permLoop_pruned)
  next
    case valid: True
    let ?r = "assignRow enc P (pos + 1) ?s1"
    from pos have "pos + 1 \<le> 16" by simp
    from permCons.IH(1) [OF valid this]
    have r: "\<forall>r. r \<notin> set (drop (pos + 1) (rowOrder P)) \<longrightarrow>
               finalArrangement (snd ?r) ! r = finalArrangement ?s1 ! r" .
    from rowOrder_not_later [OF len dist pos] r
    have rx: "finalArrangement (snd ?r) ! ?row = finalArrangement ?s1 ! ?row" by simp
    from r later s1
    have r': "\<forall>r. r \<notin> set (drop pos (rowOrder P)) \<longrightarrow>
               finalArrangement (snd ?r) ! r = finalArrangement s ! r" by simp
    show ?thesis
    proof (cases "fst ?r")
      case True
      with valid r' rx s1x show ?thesis by (simp add: permLoop_found)
    next
      case False
      from permCons.IH(2) [OF valid False pos] r' rx s1x valid False show ?thesis
        by (simp add: permLoop_next)
    qed
  qed
qed

section \<open>One placed row\<close>

lemma lt4_cases: "c < 4 \<Longrightarrow> c = 0 \<or> c = 1 \<or> c = 2 \<or> c = (3::nat)"
  by auto

lemma place3_cell:
  assumes "r < length (finalArrangement s)" and "length (finalArrangement s ! r) = 4"
    and "colX < 4" and "c < 4" and "c \<noteq> colX"
  shows "finalArrangement (place3 P r colX p3 s) ! r ! c = rows P ! r ! (p3 ! slot colX c)"
  using lt4_cases [OF assms(3)] lt4_cases [OF assms(4)] assms(1,2,5)
  by (auto simp: place3_unfold setCell_def slot_def nth_list_update)

lemma place3_BCount_nth:
  assumes "length (BCount s) = 4" and "colX < 4" and "c < 4"
  shows "BCount (place3 P r colX p3 s) ! c =
           BCount s ! c + (if c \<noteq> colX \<and> hasB P ! r ! (p3 ! slot colX c) then 1 else 0)"
  using lt4_cases [OF assms(2)] lt4_cases [OF assms(3)] assms(1)
  by (auto simp: place3_unfold placeOther_BCount slot_def nth_list_update)

lemma place3_BCount_cong:
  "BCount s' = BCount s \<Longrightarrow> BCount (place3 P r colX p3 s') = BCount (place3 P r colX p3 s)"
  by (simp add: place3_unfold placeOther_BCount)


lemma colCount_Nil [simp]: "colCount p g [] c = 0"
  by (simp add: colCount_def)

lemma colCount_Cons:
  "colCount p g (r # R) c = (if p (g ! r ! c) then 1 else 0) + colCount p g R c"
  by (simp add: colCount_def)

lemma colCount_mset: "mset R = mset R' \<Longrightarrow> colCount p g R c = colCount p g R' c"
proof -
  assume "mset R = mset R'"
  then have "mset (filter (\<lambda>r. p (g ! r ! c)) R) = mset (filter (\<lambda>r. p (g ! r ! c)) R')"
    by simp
  then have "length (filter (\<lambda>r. p (g ! r ! c)) R) = length (filter (\<lambda>r. p (g ! r ! c)) R')"
    by (rule mset_eq_length)
  then show ?thesis by (simp add: colCount_def)
qed

lemma list4: "length xs = 4 \<Longrightarrow> xs = [xs ! 0, xs ! 1, xs ! 2, xs ! 3]"
  by (rule nth_equalityI) (auto dest: lt4_cases)

lemma list3: "length xs = 3 \<Longrightarrow> xs = [xs ! 0, xs ! 1, xs ! 2]"
proof (rule nth_equalityI)
  fix i assume "length xs = 3" "i < length xs"
  then have "i = 0 \<or> i = 1 \<or> i = 2" by auto
  then show "xs ! i = [xs ! 0, xs ! 1, xs ! 2] ! i" by auto
qed simp

lemma mset4: "length xs = 4 \<Longrightarrow> mset xs = {#xs ! 0, xs ! 1, xs ! 2, xs ! 3#}"
  by (subst list4) simp_all

lemma perm123_image:
  assumes "mset p3 = mset [1, 2, 3 :: nat]"
  shows "{#f (p3 ! 0), f (p3 ! 1), f (p3 ! 2)#} = {#f 1, f 2, f 3#}"
proof -
  from assms have "length p3 = 3" using mset_eq_length by fastforce
  then have "p3 = [p3 ! 0, p3 ! 1, p3 ! 2]" by (rule list3)
  then have "{#f (p3 ! 0), f (p3 ! 1), f (p3 ! 2)#} = image_mset f (mset p3)"
    by (metis (no_types) mset.simps(1) mset.simps(2) image_mset_add_mset image_mset_empty add_mset_commute)
  also have "\<dots> = {#f 1, f 2, f 3#}" by (simp add: assms)
  finally show ?thesis .
qed

lemma perm123_nth:
  assumes "mset p3 = mset [1, 2, 3 :: nat]" and "i < 3"
  shows "p3 ! i = 1 \<or> p3 ! i = 2 \<or> p3 ! i = 3"
proof -
  from assms(1) have "length p3 = 3" using mset_eq_length by fastforce
  with assms(2) have "p3 ! i \<in> set p3" by simp
  also from assms(1) have "set p3 = set [1, 2, 3 :: nat]" by (rule mset_eq_setD)
  finally show ?thesis by simp
qed

lemma slot_lt3: "colX < 4 \<Longrightarrow> c < 4 \<Longrightarrow> c \<noteq> colX \<Longrightarrow> slot colX c < 3"
  by (auto simp: slot_def)


lemma row_mset:
  assumes colX: "colX < 4" and p3: "mset p3 = mset [1, 2, 3 :: nat]"
    and lg: "length grow = 4" and lr: "length row = 4"
    and x: "grow ! colX = row ! 0"
    and o: "\<forall>c<4. c \<noteq> colX \<longrightarrow> grow ! c = row ! (p3 ! slot colX c)"
  shows "mset grow = mset row"
proof -
  have R: "mset row = {#row ! 0, row ! 1, row ! 2, row ! 3#}" using lr by (rule mset4)
  have G: "mset grow = {#grow ! 0, grow ! 1, grow ! 2, grow ! 3#}" using lg by (rule mset4)
  have P: "{#row ! (p3 ! 0), row ! (p3 ! 1), row ! (p3 ! 2)#} = {#row ! 1, row ! 2, row ! 3#}"
    using perm123_image [OF p3, of "\<lambda>k. row ! k"] .
  from lt4_cases [OF colX] show ?thesis
  proof (elim disjE)
    assume c: "colX = 0"
    with o have "grow ! 1 = row ! (p3 ! 0)" "grow ! 2 = row ! (p3 ! 1)" "grow ! 3 = row ! (p3 ! 2)"
      by (simp_all add: slot_def)
    with x c G have "mset grow = add_mset (row ! 0) {#row ! (p3 ! 0), row ! (p3 ! 1), row ! (p3 ! 2)#}"
      by simp
    with P R show ?thesis by simp
  next
    assume c: "colX = 1"
    with o have "grow ! 0 = row ! (p3 ! 0)" "grow ! 2 = row ! (p3 ! 1)" "grow ! 3 = row ! (p3 ! 2)"
      by (simp_all add: slot_def)
    with x c G have "mset grow = add_mset (row ! 0) {#row ! (p3 ! 0), row ! (p3 ! 1), row ! (p3 ! 2)#}"
      by simp
    with P R show ?thesis by simp
  next
    assume c: "colX = 2"
    with o have "grow ! 0 = row ! (p3 ! 0)" "grow ! 1 = row ! (p3 ! 1)" "grow ! 3 = row ! (p3 ! 2)"
      by (simp_all add: slot_def)
    with x c G have "mset grow = add_mset (row ! 0) {#row ! (p3 ! 0), row ! (p3 ! 1), row ! (p3 ! 2)#}"
      by simp
    with P R show ?thesis by simp
  next
    assume c: "colX = 3"
    with o have "grow ! 0 = row ! (p3 ! 0)" "grow ! 1 = row ! (p3 ! 1)" "grow ! 2 = row ! (p3 ! 2)"
      by (simp_all add: slot_def)
    with x c G have "mset grow = add_mset (row ! 0) {#row ! (p3 ! 0), row ! (p3 ! 1), row ! (p3 ! 2)#}"
      by simp
    with P R show ?thesis by simp
  qed
qed

lemma isBXword_isX: "isBXword w \<Longrightarrow> isX w"
  by (simp add: isBXword_def isX_def)

lemma step_completes:
  assumes ok: "puzzleOk P" and pos: "pos < 16" and colX: "colX < 4"
    and p3: "mset p3 = mset [1, 2, 3 :: nat]"
    and s4: "caps4 s" and g4: "grid4 g"
    and x: "g ! (rowOrder P ! pos) ! colX = rows P ! (rowOrder P ! pos) ! 0"
    and o: "\<forall>c<4. c \<noteq> colX \<longrightarrow>
              g ! (rowOrder P ! pos) ! c = rows P ! (rowOrder P ! pos) ! (p3 ! slot colX c)"
    and rest: "completes P (pos + 1)
                 (XCapacity (placeX P pos (rowOrder P ! pos) colX s))
                 (BXCapacity (placeX P pos (rowOrder P ! pos) colX s))
                 (BCount (place3 P (rowOrder P ! pos) colX p3 (placeX P pos (rowOrder P ! pos) colX s)))
                 g"
  shows "completes P pos (XCapacity s) (BXCapacity s) (BCount s) g"
proof -
  let ?r = "rowOrder P ! pos"
  let ?row = "rows P ! ?r"
  let ?sx = "placeX P pos ?r colX s"
  from ok have len: "length (rowOrder P) = 16" and setO: "set (rowOrder P) = {0..<16}"
    by (simp_all add: puzzleOk_def)
  from len pos have "?r \<in> set (rowOrder P)" by simp
  with setO have r16: "?r < 16" by simp
  from ok r16 have lrow: "length ?row = 4" and x0: "isX (?row ! 0)"
    and nx: "\<forall>k<4. 0 < k \<longrightarrow> \<not> isX (?row ! k)"
    and hb: "\<forall>k<4. hasB P ! ?r ! k = isB (?row ! k)"
    and bx: "xIsBX P ! ?r = isBXword (?row ! 0)"
    by (simp_all add: puzzleOk_def)
  from g4 r16 have lg: "length (g ! ?r) = 4" by (simp add: grid4_def)
  have dr: "drop pos (rowOrder P) = ?r # drop (pos + 1) (rowOrder P)"
    using drop_rowOrder [OF len pos] by simp
  have rowm: "mset (g ! ?r) = mset ?row"
    using row_mset [OF colX p3 lg lrow x o] .
  have other: "\<And>c. c < 4 \<Longrightarrow> c \<noteq> colX \<Longrightarrow>
      p3 ! slot colX c < 4 \<and> 0 < p3 ! slot colX c \<and> g ! ?r ! c = ?row ! (p3 ! slot colX c)"
  proof -
    fix c assume c: "c < 4" "c \<noteq> colX"
    from perm123_nth [OF p3 slot_lt3 [OF colX c]] o c
    show "p3 ! slot colX c < 4 \<and> 0 < p3 ! slot colX c \<and> g ! ?r ! c = ?row ! (p3 ! slot colX c)"
      by auto
  qed
  have cellX: "\<And>c. c < 4 \<Longrightarrow> isX (g ! ?r ! c) = (c = colX)"
    using other x x0 nx by (metis (no_types))
  have cellBX: "\<And>c. c < 4 \<Longrightarrow> isBXword (g ! ?r ! c) = (c = colX \<and> xIsBX P ! ?r)"
    using cellX x bx isBXword_isX by (metis (no_types))
  have cellB: "\<And>c. c < 4 \<Longrightarrow> isB (g ! ?r ! c) =
      (if c = colX then hasB P ! ?r ! 0 else hasB P ! ?r ! (p3 ! slot colX c))"
  proof -
    fix c :: nat assume c: "c < 4"
    show "isB (g ! ?r ! c) = (if c = colX then hasB P ! ?r ! 0 else hasB P ! ?r ! (p3 ! slot colX c))"
    proof (cases "c = colX")
      case True
      with x hb show ?thesis by simp
    next
      case False
      with other [OF c] hb show ?thesis by simp
    qed
  qed
  from s4 have l4: "length (XCapacity s) = 4" "length (BXCapacity s) = 4" "length (BCount s) = 4"
    by (simp_all add: caps4_def)
  have "\<forall>c<4. XCapacity s ! c = colCount isX g (drop pos (rowOrder P)) c \<and>
              BCount s ! c + colCount isB g (drop pos (rowOrder P)) c \<ge> 4 \<and>
              colCount isBXword g (drop pos (rowOrder P)) c \<le> BXCapacity s ! c"
  proof (intro allI impI)
    fix c :: nat assume c: "c < 4"
    from rest c
    have X: "XCapacity ?sx ! c = colCount isX g (drop (pos + 1) (rowOrder P)) c"
      and B: "BCount (place3 P ?r colX p3 ?sx) ! c + colCount isB g (drop (pos + 1) (rowOrder P)) c \<ge> 4"
      and BX: "colCount isBXword g (drop (pos + 1) (rowOrder P)) c \<le> BXCapacity ?sx ! c"
      by (simp_all add: completes_def)
    have X': "XCapacity ?sx ! c = XCapacity s ! c - (if c = colX then 1 else 0)"
      using l4 c colX by (simp add: nth_list_update)
    have BX': "BXCapacity ?sx ! c = BXCapacity s ! c - (if c = colX \<and> xIsBX P ! ?r then 1 else 0)"
      using l4 c colX by (simp add: nth_list_update)
    have "length (BCount ?sx) = 4" using l4 by simp
    from place3_BCount_nth [OF this colX c, of P ?r p3]
    have B': "BCount (place3 P ?r colX p3 ?sx) ! c =
        BCount s ! c + (if c = colX \<and> hasB P ! ?r ! 0 then 1 else 0)
          + (if c \<noteq> colX \<and> hasB P ! ?r ! (p3 ! slot colX c) then 1 else 0)"
      using l4 c colX by (simp add: nth_list_update)
    show "XCapacity s ! c = colCount isX g (drop pos (rowOrder P)) c \<and>
          BCount s ! c + colCount isB g (drop pos (rowOrder P)) c \<ge> 4 \<and>
          colCount isBXword g (drop pos (rowOrder P)) c \<le> BXCapacity s ! c"
      using X B BX X' BX' B' cellX [OF c] cellBX [OF c] cellB [OF c]
      unfolding dr colCount_Cons by (auto split: if_splits)
  qed
  moreover have "\<forall>r\<in>set (drop pos (rowOrder P)). mset (g ! r) = mset (rows P ! r)"
    using rest rowm unfolding dr by (simp add: completes_def)
  ultimately show ?thesis by (simp add: completes_def)
qed


section \<open>A successful search leaves a solution\<close>

lemma revert_after_fail:
  assumes s4: "caps4 s"
    and fail: "\<not> fst (permLoop enc P pos colX ps (placeX P pos r colX s))"
  shows "columnState (revertX colX (XCapacity s ! colX) (BXCapacity s ! colX) (BCount s)
           (snd (permLoop enc P pos colX ps (placeX P pos r colX s)))) = columnState s"
    and "caps4 (revertX colX (XCapacity s ! colX) (BXCapacity s ! colX) (BCount s)
           (snd (permLoop enc P pos colX ps (placeX P pos r colX s))))"
proof -
  let ?sx = "placeX P pos r colX s"
  let ?r = "permLoop enc P pos colX ps ?sx"
  let ?s2 = "revertX colX (XCapacity s ! colX) (BXCapacity s ! colX) (BCount s) (snd ?r)"
  from s4 have sx: "caps4 ?sx" by (simp add: caps4_def)
  from restore_search(3) [OF sx fail] have r: "columnState (snd ?r) = columnState ?sx" .
  from sx caps4_search(3) have r4: "caps4 (snd ?r)" by blast
  have "XCapacity ?s2 = XCapacity s" "BXCapacity ?s2 = BXCapacity s"
    using r by (simp_all add: columnState_def)
  moreover have "BCount ?s2 = BCount s"
    using r4 s4 by (simp add: revertX_BCount caps4_def)
  ultimately show "columnState ?s2 = columnState s" and "caps4 ?s2"
    using s4 by (simp_all add: columnState_def caps4_def)
qed

lemma restore_after_fail:
  assumes s4: "caps4 s"
    and fail: "\<not> fst (assignRow enc P pos' (place3 P r colX p3 s))"
  shows "columnState (restoreB (BCount s) (snd (assignRow enc P pos' (place3 P r colX p3 s))))
           = columnState s"
    and "caps4 (restoreB (BCount s) (snd (assignRow enc P pos' (place3 P r colX p3 s))))"
proof -
  let ?s1 = "place3 P r colX p3 s"
  let ?r = "assignRow enc P pos' ?s1"
  from s4 have s1: "caps4 ?s1" by (simp add: caps4_def)
  from restore_search(1) [OF s1 fail] have r: "columnState (snd ?r) = columnState ?s1" .
  from s1 caps4_search(1) have r4: "caps4 (snd ?r)" by blast
  from r r4 s4 show "columnState (restoreB (BCount s) (snd ?r)) = columnState s"
    and "caps4 (restoreB (BCount s) (snd ?r))"
    by (simp_all add: columnState_def caps4_def restoreB_BCount)
qed

lemma grid4_sameShape: "sameShape g' g \<Longrightarrow> grid4 g \<Longrightarrow> grid4 g'"
  by (simp add: sameShape_def grid4_def)

lemma finalCheck_completes:
  assumes "finalCheck s" and "length (rowOrder P) = 16"
  shows "completes P 16 (XCapacity s) (BXCapacity s) (BCount s) g"
proof -
  from assms(1) have "\<forall>c<4. XCapacity s ! c = 0 \<and> 4 \<le> BCount s ! c \<and> 0 \<le> BXCapacity s ! c"
    by (simp add: finalCheck_def list_all_iff Ball_def not_less)
  with assms(2) show ?thesis by (simp add: completes_def)
qed

lemma sound_search:
  assumes ok: "puzzleOk P"
  shows "pos \<le> 16 \<Longrightarrow> caps4 s0 \<Longrightarrow> grid4 (finalArrangement s0) \<Longrightarrow> noTrue (memo s0) \<Longrightarrow>
           fst (assignRow enc P pos s0) \<Longrightarrow>
           completes P pos (XCapacity s0) (BXCapacity s0) (BCount s0)
             (finalArrangement (snd (assignRow enc P pos s0)))"
    and "pos < 16 \<Longrightarrow> caps4 s \<Longrightarrow> grid4 (finalArrangement s) \<Longrightarrow> noTrue (memo s) \<Longrightarrow>
           fst (colLoop enc P pos k colX s) \<Longrightarrow>
           completes P pos (XCapacity s) (BXCapacity s) (BCount s)
             (finalArrangement (snd (colLoop enc P pos k colX s)))"
    and "pos < 16 \<Longrightarrow> colX < 4 \<Longrightarrow> \<forall>p3\<in>set ps. mset p3 = mset [1, 2, 3] \<Longrightarrow>
           caps4 s \<Longrightarrow> grid4 (finalArrangement s) \<Longrightarrow> noTrue (memo s) \<Longrightarrow>
           fst (permLoop enc P pos colX ps s) \<Longrightarrow>
           (\<exists>p3\<in>set ps.
              (\<forall>c<4. c \<noteq> colX \<longrightarrow>
                 finalArrangement (snd (permLoop enc P pos colX ps s)) ! (rowOrder P ! pos) ! c
                   = rows P ! (rowOrder P ! pos) ! (p3 ! slot colX c))
              \<and> finalArrangement (snd (permLoop enc P pos colX ps s)) ! (rowOrder P ! pos) ! colX
                   = finalArrangement s ! (rowOrder P ! pos) ! colX
              \<and> completes P (pos + 1) (XCapacity s) (BXCapacity s)
                   (BCount (place3 P (rowOrder P ! pos) colX p3 s))
                   (finalArrangement (snd (permLoop enc P pos colX ps s))))"
proof (induction pos s0 and pos k colX s and pos colX ps s rule: search_induct [where enc = enc and P = P])
  case (assignRow pos s0)
  from ok have len: "length (rowOrder P) = 16" by (simp add: puzzleOk_def)
  consider "pos < 16" | "pos = 16" by (metis assignRow.prems(1) le_neq_implies_less)
  then show ?case
  proof cases
    case 1
    show ?thesis
    proof (cases "memo s0 (enc pos (enter pos s0))")
      case None
      from assignRow.prems have e: "caps4 (enter pos s0)" "grid4 (finalArrangement (enter pos s0))"
        "noTrue (memo (enter pos s0))"
        by (simp_all add: caps4_def)
      from assignRow.prems(5) 1 None
      have "fst (colLoop enc P pos (enc pos (enter pos s0)) 0 (enter pos s0))"
        by (simp add: assignRow_miss)
      from assignRow.IH [OF 1 _ 1 e this] None 1 show ?thesis
        by (simp add: assignRow_miss)
    next
      case (Some b)
      with assignRow.prems(4,5) 1 show ?thesis
        by (auto simp: assignRow_hit noTrue_def)
    qed
  next
    case 2
    with assignRow.prems(5) have "finalCheck (enter 16 s0)" by (simp add: assignRow_final)
    from finalCheck_completes [OF this len] 2 show ?thesis
      by (simp add: assignRow_final)
  qed
next
  case (colLoop pos k colX s)
  note pos = \<open>pos < 16\<close>
  let ?row = "rowOrder P ! pos"
  from ok have len: "length (rowOrder P) = 16" and setO: "set (rowOrder P) = {0..<16}"
    by (simp_all add: puzzleOk_def)
  from len pos have "?row \<in> set (rowOrder P)" by simp
  with setO have r16: "?row < 16" by simp
  show ?case
  proof (cases "colX < 4")
    case False
    with colLoop.prems(5) show ?thesis by (simp add: colLoop_done)
  next
    case c: True
    show ?thesis
    proof (cases "canPlaceX P pos colX s")
      case False
      from colLoop.prems(5) c False have "fst (colLoop enc P pos k (colX + 1) s)"
        by (simp add: colLoop_skip)
      from colLoop.IH(1) [OF c False pos colLoop.prems(2,3,4) this] c False show ?thesis
        by (simp add: colLoop_skip)
    next
      case can: True
      let ?sx = "placeX P pos ?row colX s"
      let ?r = "permLoop enc P pos colX (rowNonXPerms P ! ?row) ?sx"
      let ?s2 = "revertX colX (XCapacity s ! colX) (BXCapacity s ! colX) (BCount s) (snd ?r)"
      from colLoop.prems(2) have sx4: "caps4 ?sx" by (simp add: caps4_def)
      from colLoop.prems(3) have sxg: "grid4 (finalArrangement ?sx)"
        by (simp add: grid4_sameShape [OF sameShape_setCell])
      from colLoop.prems(4) have sxm: "noTrue (memo ?sx)" by simp
      from ok r16 have perms: "\<forall>p3\<in>set (rowNonXPerms P ! ?row). mset p3 = mset [1, 2, 3]"
        by (simp add: puzzleOk_def)
      show ?thesis
      proof (cases "fst ?r")
        case True
        let ?g = "finalArrangement (snd ?r)"
        from colLoop.IH(2) [OF c can pos c perms sx4 sxg sxm True]
        obtain p3 where p3: "p3 \<in> set (rowNonXPerms P ! ?row)"
          and cells: "\<forall>c<4. c \<noteq> colX \<longrightarrow> ?g ! ?row ! c = rows P ! ?row ! (p3 ! slot colX c)"
          and cellX: "?g ! ?row ! colX = finalArrangement ?sx ! ?row ! colX"
          and rest: "completes P (pos + 1) (XCapacity ?sx) (BXCapacity ?sx)
                       (BCount (place3 P ?row colX p3 ?sx)) ?g"
          by blast
        from colLoop.prems(3) r16 c have "finalArrangement ?sx ! ?row ! colX = rows P ! ?row ! 0"
          by (simp add: setCell_same grid4_def)
        with cellX have x: "?g ! ?row ! colX = rows P ! ?row ! 0" by simp
        from shape_search(3) sxg have gg: "grid4 ?g" by (rule grid4_sameShape)
        from perms p3 have "mset p3 = mset [1, 2, 3]" by blast
        from step_completes [OF ok pos c this colLoop.prems(2) gg x cells rest]
        have "completes P pos (XCapacity s) (BXCapacity s) (BCount s) ?g" .
        with c can True show ?thesis by (simp add: colLoop_found)
      next
        case False
        from revert_after_fail [OF colLoop.prems(2) False]
        have s2c: "columnState ?s2 = columnState s" and s24: "caps4 ?s2" .
        from shape_search(3) sxg have "grid4 (finalArrangement (snd ?r))" by (rule grid4_sameShape)
        then have s2g: "grid4 (finalArrangement ?s2)" by simp
        from noTrue_search(3) [OF sxm False] have s2m: "noTrue (memo ?s2)" by simp
        from colLoop.prems(5) c can False have "fst (colLoop enc P pos k (colX + 1) ?s2)"
          by (simp add: colLoop_next)
        from colLoop.IH(3) [OF c can False pos s24 s2g s2m this] s2c c can False show ?thesis
          by (simp add: colLoop_next columnState_def)
      qed
    qed
  qed
next
  case (permNil pos colX s)
  then show ?case by (simp add: permLoop_Nil)
next
  case (permCons pos colX p3 rest s)
  note pos = \<open>pos < 16\<close> and c = \<open>colX < 4\<close>
  let ?row = "rowOrder P ! pos"
  let ?s1 = "place3 P ?row colX p3 s"
  from ok have len: "length (rowOrder P) = 16" and dist: "distinct (rowOrder P)"
    and setO: "set (rowOrder P) = {0..<16}"
    by (simp_all add: puzzleOk_def)
  from len pos have "?row \<in> set (rowOrder P)" by simp
  with setO have r16: "?row < 16" by simp
  from permCons.prems(3) have p3: "mset p3 = mset [1, 2, 3]"
    and prest: "\<forall>p3\<in>set rest. mset p3 = mset [1, 2, 3]" by simp_all
  from permCons.prems(4) have s14: "caps4 ?s1" by (simp add: caps4_def)
  from permCons.prems(5) have s1g: "grid4 (finalArrangement ?s1)"
    by (rule grid4_sameShape [OF sameShape_place3])
  from permCons.prems(6) have s1m: "noTrue (memo ?s1)" by simp
  have s1x: "finalArrangement ?s1 ! ?row ! colX = finalArrangement s ! ?row ! colX"
    by (rule place3_X_cell)
  show ?case
  proof (cases "pruneValid P pos ?s1")
    case False
    let ?s2 = "restoreB (BCount s) ?s1"
    let ?g = "finalArrangement (snd (permLoop enc P pos colX rest ?s2))"
    from s14 permCons.prems(4) have s2B: "BCount ?s2 = BCount s" and s24: "caps4 ?s2"
      by (simp_all add: caps4_def restoreB_BCount)
    from s1g have s2g: "grid4 (finalArrangement ?s2)" by simp
    from s1m have s2m: "noTrue (memo ?s2)" by simp
    from permCons.prems(7) False have "fst (permLoop enc P pos colX rest ?s2)"
      by (simp add: permLoop_pruned)
    from permCons.IH(3) [OF False pos c prest s24 s2g s2m this]
    obtain q where q: "q \<in> set rest"
      and cells: "\<forall>c<4. c \<noteq> colX \<longrightarrow> ?g ! ?row ! c = rows P ! ?row ! (q ! slot colX c)"
      and cellX: "?g ! ?row ! colX = finalArrangement ?s2 ! ?row ! colX"
      and comp: "completes P (pos + 1) (XCapacity ?s2) (BXCapacity ?s2)
                   (BCount (place3 P ?row colX q ?s2)) ?g"
      by blast
    from place3_BCount_cong [OF s2B] comp
    have "completes P (pos + 1) (XCapacity s) (BXCapacity s) (BCount (place3 P ?row colX q s)) ?g"
      by simp
    with q cells cellX s1x False show ?thesis
      by (auto simp: permLoop_pruned)
  next
    case valid: True
    let ?r = "assignRow enc P (pos + 1) ?s1"
    from pos have pos1: "pos + 1 \<le> 16" by simp
    have frame: "finalArrangement (snd ?r) ! ?row = finalArrangement ?s1 ! ?row"
      using frame_search(1) [OF len dist pos1, of enc ?s1] rowOrder_not_later [OF len dist pos]
      by simp
    show ?thesis
    proof (cases "fst ?r")
      case True
      let ?g = "finalArrangement (snd ?r)"
      from permCons.IH(1) [OF valid pos1 s14 s1g s1m True]
      have comp: "completes P (pos + 1) (XCapacity s) (BXCapacity s) (BCount ?s1) ?g" by simp
      from permCons.prems(5) r16 have "\<forall>c<4. c \<noteq> colX \<longrightarrow>
          finalArrangement ?s1 ! ?row ! c = rows P ! ?row ! (p3 ! slot colX c)"
        using place3_cell [of ?row s colX _ P p3] c by (simp add: grid4_def)
      with frame s1x comp valid True show ?thesis
        by (simp add: permLoop_found)
    next
      case False
      let ?s2 = "restoreB (BCount s) (snd ?r)"
      let ?g = "finalArrangement (snd (permLoop enc P pos colX rest ?s2))"
      from restore_after_fail [OF permCons.prems(4) False]
      have s2c: "columnState ?s2 = columnState s" and s24: "caps4 ?s2" .
      from shape_search(1) s1g have "grid4 (finalArrangement (snd ?r))" by (rule grid4_sameShape)
      then have s2g: "grid4 (finalArrangement ?s2)" by simp
      from noTrue_search(1) [OF s1m False] have s2m: "noTrue (memo ?s2)" by simp
      from permCons.prems(7) valid False have "fst (permLoop enc P pos colX rest ?s2)"
        by (simp add: permLoop_next)
      from permCons.IH(2) [OF valid False pos c prest s24 s2g s2m this]
      obtain q where q: "q \<in> set rest"
        and cells: "\<forall>c<4. c \<noteq> colX \<longrightarrow> ?g ! ?row ! c = rows P ! ?row ! (q ! slot colX c)"
        and cellX: "?g ! ?row ! colX = finalArrangement ?s2 ! ?row ! colX"
        and comp: "completes P (pos + 1) (XCapacity ?s2) (BXCapacity ?s2)
                     (BCount (place3 P ?row colX q ?s2)) ?g"
        by blast
      from s2c have s2B: "BCount ?s2 = BCount s" and s2X: "XCapacity ?s2 = XCapacity s"
        and s2BX: "BXCapacity ?s2 = BXCapacity s"
        by (simp_all add: columnState_def)
      from place3_BCount_cong [OF s2B] comp s2X s2BX
      have "completes P (pos + 1) (XCapacity s) (BXCapacity s) (BCount (place3 P ?row colX q s)) ?g"
        by simp
      moreover from cellX frame s1x have "?g ! ?row ! colX = finalArrangement s ! ?row ! colX"
        by simp
      ultimately show ?thesis using q cells valid False
        by (auto simp: permLoop_next)
    qed
  qed
qed

section \<open>The permutations of the three other words\<close>

lemma backtrack_perm:
  "p \<in> set (backtrack [a, b, d] [False, False, False] []) \<Longrightarrow> mset p = {#snd a, snd b, snd d#}"
  by (simp add: backtrack.simps backtrackLoop.simps split: if_splits) auto


lemma makeUniquePerms3_perm:
  assumes "p3 \<in> set (makeUniquePerms3 rs r)"
  shows "mset p3 = mset [1, 2, 3]"
proof -
  define c where "c = sortBy (\<lambda>a b. localeCompare (fst a) (fst b))
                        [(rs ! r ! 1, 1 :: nat), (rs ! r ! 2, 2), (rs ! r ! 3, 3)]"
  have m: "mset c = {#(rs ! r ! 1, 1), (rs ! r ! 2, 2), (rs ! r ! 3, 3)#}"
    by (simp add: c_def)
  have "length c = 3" by (simp add: c_def)
  then have c3: "c = [c ! 0, c ! 1, c ! 2]" by (rule list3)
  from assms have "p3 \<in> set (backtrack c [False, False, False] [])"
    by (simp add: makeUniquePerms3_def uniquePermutationsOf3_def c_def)
  with c3 have "mset p3 = {#snd (c ! 0), snd (c ! 1), snd (c ! 2)#}"
    using backtrack_perm [of p3 "c ! 0" "c ! 1" "c ! 2"] by simp
  also have "\<dots> = image_mset snd (mset c)"
    by (subst (4) c3) simp
  also have "\<dots> = {#1, 2, 3#}" by (simp add: m)
  finally show ?thesis by simp
qed

section \<open>The puzzle data of a checked input\<close>

lemma allowedWord_cases: "allowedWord w \<Longrightarrow> w = ''A'' \<or> w = ''B'' \<or> w = ''AX'' \<or> w = ''BX''"
  by (auto simp: allowedWord_def)

lemma includesB_isB: "allowedWord w \<Longrightarrow> includesB w = isB w"
  by (auto simp: includesB_def isB_def dest!: allowedWord_cases)

lemma indexOf_ORDER:
  "allowedWord w \<Longrightarrow> indexOf ORDER w = (if w = ''BX'' then 0 else if w = ''AX'' then 1 else if w = ''B'' then 2 else 3)"
  by (auto simp: ORDER_def dest!: allowedWord_cases)

lemma isX_index: "allowedWord w \<Longrightarrow> isX w = (indexOf ORDER w \<le> 1)"
  by (auto simp: indexOf_ORDER isX_def dest!: allowedWord_cases)

lemma sorted_parseLine:
  "sorted_wrt (\<lambda>a b. indexOf ORDER a - indexOf ORDER b \<le> 0) (parseLine l)"
  unfolding parseLine_def by (rule sorted_sortBy) auto

lemma parseLine_marked_first:
  assumes len: "length (wordsOf l) = 4"
    and allowed: "\<forall>w\<in>set (wordsOf l). allowedWord w"
    and one: "length (filter isX (wordsOf l)) = 1"
  shows "isX (parseLine l ! 0) \<and> (\<forall>k<4. 0 < k \<longrightarrow> \<not> isX (parseLine l ! k))"
proof -
  let ?row = "parseLine l"
  have l4: "length ?row = 4" using len by (simp add: wordsOf_def)
  have "mset (filter isX ?row) = mset (filter isX (wordsOf l))"
    by (simp add: wordsOf_def)
  then have "length (filter isX ?row) = length (filter isX (wordsOf l))"
    by (rule mset_eq_length)
  with one have one': "length (filter isX ?row) = 1" by simp
  have al: "\<And>k. k < 4 \<Longrightarrow> allowedWord (?row ! k)"
  proof -
    fix k :: nat assume "k < 4"
    with l4 have "k < length ?row" by simp
    then have "?row ! k \<in> set ?row" by (rule nth_mem)
    with allowed show "allowedWord (?row ! k)" by (simp add: wordsOf_def)
  qed
  have srt: "\<And>i j. i < j \<Longrightarrow> j < 4 \<Longrightarrow> indexOf ORDER (?row ! i) \<le> indexOf ORDER (?row ! j)"
    using sorted_parseLine [of l] l4 by (simp add: sorted_wrt_iff_nth_less)
  have mono: "\<And>i j. i < j \<Longrightarrow> j < 4 \<Longrightarrow> isX (?row ! j) \<Longrightarrow> isX (?row ! i)"
  proof -
    fix i j :: nat assume ij: "i < j" "j < 4" and xj: "isX (?row ! j)"
    from ij have i4: "i < 4" by simp
    from srt [OF ij] xj isX_index [OF al [OF ij(2)]] isX_index [OF al [OF i4]]
    show "isX (?row ! i)" by simp
  qed
  have count: "length (filter isX ?row) =
      (if isX (?row ! 0) then 1 else 0) + (if isX (?row ! 1) then 1 else 0)
      + (if isX (?row ! 2) then 1 else 0) + (if isX (?row ! 3) then 1 else 0)"
    by (subst list4 [OF l4]) simp
  have first: "isX (?row ! 0)"
  proof (rule ccontr)
    assume n: "\<not> isX (?row ! 0)"
    with mono [of 0 1] mono [of 0 2] mono [of 0 3]
    have "\<not> isX (?row ! 1)" "\<not> isX (?row ! 2)" "\<not> isX (?row ! 3)" by auto
    with n count one' show False by simp
  qed
  have others: "\<forall>k<4. 0 < k \<longrightarrow> \<not> isX (?row ! k)"
  proof (intro allI impI)
    fix k :: nat assume k: "k < 4" "0 < k"
    show "\<not> isX (?row ! k)"
    proof
      assume xk: "isX (?row ! k)"
      from k have "k = 1 \<or> k = 2 \<or> k = 3" by auto
      with xk first count one' mono [of 1 k] show False by auto
    qed
  qed
  from first others show ?thesis by simp
qed

lemma mkPuzzle_fields [simp]:
  "rows (mkPuzzle rs) = rs"
  "hasB (mkPuzzle rs) = map (map includesB) rs"
  "xIsBX (mkPuzzle rs) = map (\<lambda>i. rs ! i ! 0 = ''BX'') [0..<16]"
  "rowNonXPerms (mkPuzzle rs) = map (makeUniquePerms3 rs) [0..<16]"
  by (simp_all add: mkPuzzle_def Let_def)

lemma passesChecks_line:
  assumes "passesChecks ls" and "r < 16"
  shows "length (wordsOf (ls ! r)) = 4" and "\<forall>w\<in>set (wordsOf (ls ! r)). allowedWord w"
proof -
  from assms have "ls ! r \<in> set ls" by (simp add: passesChecks_def)
  with assms(1) show "length (wordsOf (ls ! r)) = 4" and "\<forall>w\<in>set (wordsOf (ls ! r)). allowedWord w"
    by (auto simp: passesChecks_def list_all_iff wordsOf_def)
qed

lemma puzzleOk_mkPuzzle:
  assumes pc: "passesChecks ls" and om: "oneMarked ls"
  shows "puzzleOk (mkPuzzle (map parseLine ls))"
proof -
  let ?rs = "map parseLine ls"
  from pc have len: "length ls = 16" by (simp add: passesChecks_def)
  have row: "\<forall>r<16. length (rows (mkPuzzle ?rs) ! r) = 4 \<and>
               isX (rows (mkPuzzle ?rs) ! r ! 0) \<and>
               (\<forall>k<4. 0 < k \<longrightarrow> \<not> isX (rows (mkPuzzle ?rs) ! r ! k)) \<and>
               (\<forall>k<4. hasB (mkPuzzle ?rs) ! r ! k = isB (rows (mkPuzzle ?rs) ! r ! k)) \<and>
               xIsBX (mkPuzzle ?rs) ! r = isBXword (rows (mkPuzzle ?rs) ! r ! 0) \<and>
               (\<forall>p3\<in>set (rowNonXPerms (mkPuzzle ?rs) ! r). mset p3 = mset [1, 2, 3])"
  proof (intro allI impI)
    fix r :: nat assume r: "r < 16"
    from passesChecks_line [OF pc r]
    have l4: "length (wordsOf (ls ! r)) = 4" and al: "\<forall>w\<in>set (wordsOf (ls ! r)). allowedWord w" .
    from om r len have one: "length (filter isX (wordsOf (ls ! r))) = 1"
      by (simp add: oneMarked_def list_all_iff)
    from r len have rr: "?rs ! r = parseLine (ls ! r)" by simp
    have p4: "length (parseLine (ls ! r)) = 4" using l4 by (simp add: wordsOf_def)
    have pal: "\<And>k. k < 4 \<Longrightarrow> allowedWord (parseLine (ls ! r) ! k)"
    proof -
      fix k :: nat assume "k < 4"
      with p4 have "k < length (parseLine (ls ! r))" by simp
      then have "parseLine (ls ! r) ! k \<in> set (parseLine (ls ! r))" by (rule nth_mem)
      with al show "allowedWord (parseLine (ls ! r) ! k)" by (simp add: wordsOf_def)
    qed
    have "\<forall>k<4. hasB (mkPuzzle ?rs) ! r ! k = isB (rows (mkPuzzle ?rs) ! r ! k)"
      using r len p4 pal by (simp add: includesB_isB)
    moreover have "xIsBX (mkPuzzle ?rs) ! r = isBXword (rows (mkPuzzle ?rs) ! r ! 0)"
      using r len by (simp add: isBXword_def del: upt_Suc)
    moreover have "\<forall>p3\<in>set (rowNonXPerms (mkPuzzle ?rs) ! r). mset p3 = mset [1, 2, 3]"
      using r makeUniquePerms3_perm [of _ ?rs r] by (simp del: upt_Suc)
    ultimately show "length (rows (mkPuzzle ?rs) ! r) = 4 \<and>
               isX (rows (mkPuzzle ?rs) ! r ! 0) \<and>
               (\<forall>k<4. 0 < k \<longrightarrow> \<not> isX (rows (mkPuzzle ?rs) ! r ! k)) \<and>
               (\<forall>k<4. hasB (mkPuzzle ?rs) ! r ! k = isB (rows (mkPuzzle ?rs) ! r ! k)) \<and>
               xIsBX (mkPuzzle ?rs) ! r = isBXword (rows (mkPuzzle ?rs) ! r ! 0) \<and>
               (\<forall>p3\<in>set (rowNonXPerms (mkPuzzle ?rs) ! r). mset p3 = mset [1, 2, 3])"
      using parseLine_marked_first [OF l4 al one] p4 rr by simp
  qed
  show ?thesis
    unfolding puzzleOk_def using row by simp
qed

section \<open>The solver on checked inputs\<close>

lemma initState_fields [simp]:
  "XCapacity initState = [4, 4, 4, 4]" "BXCapacity initState = [1, 1, 1, 1]"
  "BCount initState = [0, 0, 0, 0]" "memo initState = Map.empty" "trace initState = []"
  "finalArrangement initState = replicate 16 (replicate 4 [])"
  by (simp_all add: initState_def)

lemma passesChecks_solveWith:
  assumes "passesChecks ls"
  shows "solveWith enc ls =
     (if fst (assignRow enc (mkPuzzle (map parseLine ls)) 0 initState)
      then Inr (finalArrangement (snd (assignRow enc (mkPuzzle (map parseLine ls)) 0 initState)))
      else Inl NoValidSolution)"
proof -
  from assms have len: "length ls = 16" by (simp add: passesChecks_def)
  from assms have four: "list_all (\<lambda>r. length r = 4) (map parseLine ls)"
    by (simp add: passesChecks_def list_all_iff)
  then have four': "\<forall>r\<in>set (map parseLine ls). length r = 4" by (simp add: list_all_iff)
  from assms have "\<forall>r\<in>set (map parseLine ls). \<forall>w\<in>set r. allowedWord w"
    by (simp add: passesChecks_def list_all_iff)
  with all_words_allowed [of "map parseLine ls"] len four'
  have "firstInvalid (map parseLine ls) = None" by simp
  with len four show ?thesis by (simp add: solveWith_def Let_def)
qed

lemma solveWith_sound:
  assumes pc: "passesChecks ls" and om: "oneMarked ls" and res: "solveWith enc ls = Inr g"
  shows "solves (map wordsOf ls) g"
proof -
  let ?P = "mkPuzzle (map parseLine ls)"
  let ?r = "assignRow enc ?P 0 initState"
  from pc have len: "length ls = 16" by (simp add: passesChecks_def)
  from res passesChecks_solveWith [OF pc, of enc]
  have ok: "fst ?r" and g: "g = finalArrangement (snd ?r)"
    by (simp_all split: if_splits)
  have pz: "puzzleOk ?P" using pc om by (rule puzzleOk_mkPuzzle)
  have g0: "grid4 (finalArrangement initState)" by (simp add: grid4_def)
  have "completes ?P 0 (XCapacity initState) (BXCapacity initState) (BCount initState)
          (finalArrangement (snd ?r))"
    by (rule sound_search(1) [OF pz _ _ g0 _ ok]) (simp_all add: noTrue_def)
  then have comp: "completes ?P 0 [4, 4, 4, 4] [1, 1, 1, 1] [0, 0, 0, 0] g"
    by (simp add: g)
  from pz have setO: "set (rowOrder ?P) = {0..<16}" and msO: "mset (rowOrder ?P) = mset [0..<16]"
    by (simp_all add: puzzleOk_def)
  have "grid4 g" unfolding g using shape_search(1) g0 by (rule grid4_sameShape)
  then have lg: "length g = 16" by (simp add: grid4_def)
  have rowsOk: "\<forall>i<16. mset (g ! i) = mset (map wordsOf ls ! i)"
  proof (intro allI impI)
    fix i :: nat assume i: "i < 16"
    with setO have "i \<in> set (drop 0 (rowOrder ?P))" by simp
    with comp have "mset (g ! i) = mset (rows ?P ! i)" by (simp add: completes_def)
    with i len show "mset (g ! i) = mset (map wordsOf ls ! i)" by (simp add: wordsOf_def)
  qed
  have cols: "\<forall>c<4. colCount isX g [0..<16] c = 4 \<and> colCount isB g [0..<16] c \<ge> 4
                 \<and> colCount isBXword g [0..<16] c \<le> 1"
  proof (intro allI impI)
    fix c :: nat assume c: "c < 4"
    from comp c have "[4, 4, 4, 4] ! c = colCount isX g (rowOrder ?P) c"
      and "[0, 0, 0, 0] ! c + colCount isB g (rowOrder ?P) c \<ge> 4"
      and "colCount isBXword g (rowOrder ?P) c \<le> [1, 1, 1, 1] ! c"
      by (simp_all add: completes_def)
    moreover from lt4_cases [OF c] have "[4, 4, 4, 4 :: int] ! c = 4" "[0, 0, 0, 0 :: int] ! c = 0"
      "[1, 1, 1, 1 :: int] ! c = 1" by auto
    ultimately show "colCount isX g [0..<16] c = 4 \<and> colCount isB g [0..<16] c \<ge> 4
                 \<and> colCount isBXword g [0..<16] c \<le> 1"
      using colCount_mset [OF msO, of _ g c] by simp
  qed
  from lg rowsOk cols show ?thesis by (simp add: solves_def)
qed

text \<open>
  Claim C1, as amended.  The three checks do not count the marked words of
  a row, and for an input with a row of two marked words the returned grid
  can hold five marked words in a column.  Let the input pass the three
  checks and have exactly one marked word in every row.  If
  \<open>baselineSolver\<close> returns a grid, the grid has sixteen rows, row \<open>i\<close>
  is a permutation of the words of line \<open>i\<close>, and every column holds
  exactly four marked words (AX or BX), at least four flagged words (B or
  BX) and at most one BX.
\<close>

theorem returned_grid_solves:
  assumes "passesChecks ls" and "oneMarked ls" and "baselineSolver ls = Inr g"
  shows "solves (map wordsOf ls) g"
  using assms unfolding baselineSolver_def by (rule solveWith_sound)

section \<open>Every checked input is searched\<close>

text \<open>
  Claim C6, as amended.  The solver does not count the marked words of a
  row.  Every input that passes the three checks, whatever the number of
  marked words in its rows, is searched, and the outcome is a grid or the
  error of the exhausted search, never a malformed-input error.
\<close>

theorem checked_input_is_searched:
  assumes "passesChecks ls"
  shows "baselineSolver ls = Inl NoValidSolution \<or> (\<exists>g. baselineSolver ls = Inr g)"
  using passesChecks_solveWith [OF assms, of encodeState]
  by (auto simp: baselineSolver_def)

section \<open>Concrete runs\<close>

lemma example_search:
  "(let r = assignRow encodeState examplePuzzle 0 initState
    in (fst r, finalArrangement (snd r), trace (snd r), XCapacity (snd r), BXCapacity (snd r)))
   = (True, exampleGrid, exampleTrace, [0, 0, 0, 0], [0, 0, 1, 1])"
  by code_simp

lemma example_checks: "passesChecks exampleInput \<and> oneMarked exampleInput"
  by code_simp


lemma example_result: "baselineSolver exampleInput = Inr exampleGrid"
  using example_search example_checks passesChecks_solveWith [of exampleInput encodeState]
  by (simp add: Let_def baselineSolver_def examplePuzzle_def)

lemma example_trace: "trace (snd (assignRow encodeState examplePuzzle 0 initState)) = exampleTrace"
  using example_search by (simp add: Let_def)

lemma overfull_search:
  "(let r = assignRow encodeState (mkPuzzle (map parseLine overfullInput)) 0 initState
    in (fst r, finalArrangement (snd r))) = (True, overfullGrid)"
  by code_simp

lemma overfull_checks: "passesChecks overfullInput"
  by code_simp

lemma overfull_result: "baselineSolver overfullInput = Inr overfullGrid"
  using overfull_search overfull_checks passesChecks_solveWith [of overfullInput encodeState]
  by (simp add: Let_def baselineSolver_def)

lemma irregular_search:
  "(let r = assignRow encodeState (mkPuzzle (map parseLine irregularInput)) 0 initState
    in (fst r, finalArrangement (snd r))) = (True, irregularGrid)"
  by code_simp

lemma irregular_checks: "passesChecks irregularInput"
  by code_simp

lemma irregular_result: "baselineSolver irregularInput = Inr irregularGrid"
  using irregular_search irregular_checks passesChecks_solveWith [of irregularInput encodeState]
  by (simp add: Let_def baselineSolver_def)

section \<open>Counting the marked and the flagged words of a solution\<close>

lemma colCount_sum:
  assumes "\<forall>r\<in>set R. length (g ! r) = 4"
  shows "colCount p g R 0 + colCount p g R 1 + colCount p g R 2 + colCount p g R 3
           = sum_list (map (\<lambda>r. int (length (filter p (g ! r)))) R)"
  using assms
proof (induction R)
  case Nil
  then show ?case by simp
next
  case (Cons r R)
  from Cons.prems have "length (g ! r) = 4" by simp
  then have "g ! r = [g ! r ! 0, g ! r ! 1, g ! r ! 2, g ! r ! 3]" by (rule list4)
  from arg_cong [OF this, of "\<lambda>xs. int (length (filter p xs))"]
  have "int (length (filter p (g ! r)))
          = int (length (filter p [g ! r ! 0, g ! r ! 1, g ! r ! 2, g ! r ! 3]))" .
  also have "\<dots> = (if p (g ! r ! 0) then 1 else 0) + (if p (g ! r ! 1) then 1 else 0)
      + (if p (g ! r ! 2) then 1 else 0) + (if p (g ! r ! 3) then 1 else 0)"
    by simp
  finally have "int (length (filter p (g ! r))) =
      (if p (g ! r ! 0) then 1 else 0) + (if p (g ! r ! 1) then 1 else 0)
      + (if p (g ! r ! 2) then 1 else 0) + (if p (g ! r ! 3) then 1 else 0)" .
  with Cons show ?case by (simp add: colCount_Cons)
qed

lemma solves_row_length:
  assumes "solves rs g" and "r < 16"
  shows "length (g ! r) = length (rs ! r)"
    and "length (filter p (g ! r)) = length (filter p (rs ! r))"
proof -
  from assms have m: "mset (g ! r) = mset (rs ! r)" by (simp add: solves_def)
  then show "length (g ! r) = length (rs ! r)" by (rule mset_eq_length)
  from m have "mset (filter p (g ! r)) = mset (filter p (rs ! r))" by simp
  then show "length (filter p (g ! r)) = length (filter p (rs ! r))" by (rule mset_eq_length)
qed

lemma solves_marked_total:
  assumes sol: "solves rs g" and four: "\<forall>r<16. length (rs ! r) = 4"
  shows "sum_list (map (\<lambda>r. int (length (filter isX (rs ! r)))) [0..<16]) = 16"
proof -
  have "\<forall>r\<in>set [0..<16]. length (g ! r) = 4"
    using solves_row_length(1) [OF sol] four by simp
  from colCount_sum [OF this, of isX]
  have "sum_list (map (\<lambda>r. int (length (filter isX (g ! r)))) [0..<16])
          = colCount isX g [0..<16] 0 + colCount isX g [0..<16] 1
            + colCount isX g [0..<16] 2 + colCount isX g [0..<16] 3" by simp
  also from sol have "\<dots> = 16" by (simp add: solves_def)
  finally have "sum_list (map (\<lambda>r. int (length (filter isX (g ! r)))) [0..<16]) = 16" .
  moreover have "map (\<lambda>r. int (length (filter isX (g ! r)))) [0..<16]
                   = map (\<lambda>r. int (length (filter isX (rs ! r)))) [0..<16]"
    using solves_row_length(2) [OF sol] by (intro map_cong) simp_all
  ultimately show ?thesis by simp
qed


lemma overfull_unsolvable: "\<not> (\<exists>g. solves (map wordsOf overfullInput) g)"
proof
  assume "\<exists>g. solves (map wordsOf overfullInput) g"
  then obtain g where g: "solves (map wordsOf overfullInput) g" ..
  have four: "\<forall>r<16. length (map wordsOf overfullInput ! r) = 4"
    using overfull_checks by (simp add: passesChecks_def list_all_iff wordsOf_def)
  have "sum_list (map (\<lambda>r. int (length (filter isX (map wordsOf overfullInput ! r)))) [0..<16]) = 17"
    by code_simp
  with solves_marked_total [OF g four] show False by simp
qed



section \<open>The text key tells the states apart\<close>

lemma digit10_value: "d < 10 \<Longrightarrow> int (of_char (digit10 d)) - 48 = int d"
proof -
  have "\<forall>d\<in>set [0..<10]. int (of_char (digit10 d)) - 48 = int d"
    by code_simp
  moreover assume "d < 10"
  ultimately show ?thesis by simp
qed

lemma digit10_set: "d < 10 \<Longrightarrow> digit10 d \<in> set ''0123456789''"
  unfolding digit10_def by (rule nth_mem) simp

lemma decimalValue_snoc: "decimalValue (ds @ [c]) = 10 * decimalValue ds + (int (of_char c) - 48)"
  by (simp add: decimalValue_def)

lemma decimalValue_natToString10: "0 \<le> n \<Longrightarrow> decimalValue (natToString10 n) = n"
proof (induction n rule: natToString10.induct)
  case (1 n)
  show ?case
  proof (cases "n < 10")
    case True
    with "1.prems" have "nat n < 10" by simp
    from digit10_value [OF this] True "1.prems" show ?thesis
      by (simp add: natToString10.simps [of n] decimalValue_def)
  next
    case False
    with "1.prems" have d: "0 \<le> n div 10" by simp
    have "nat (n mod 10) < 10" by simp
    from digit10_value [OF this] have "int (of_char (digit10 (nat (n mod 10)))) - 48 = n mod 10"
      by simp
    with "1.IH" [OF False d] False show ?thesis
      by (simp add: natToString10.simps [of n] decimalValue_snoc)
  qed
qed

lemma natToString10_set: "0 \<le> n \<Longrightarrow> set (natToString10 n) \<subseteq> set ''0123456789''"
proof (induction n rule: natToString10.induct)
  case (1 n)
  show ?case
  proof (cases "n < 10")
    case True
    with "1.prems" have "nat n < 10" by simp
    from digit10_set [OF this] True show ?thesis
      by (simp add: natToString10.simps [of n])
  next
    case False
    with "1.prems" have d: "0 \<le> n div 10" by simp
    have "nat (n mod 10) < 10" by simp
    from digit10_set [OF this] "1.IH" [OF False d] False show ?thesis
      by (simp add: natToString10.simps [of n])
  qed
qed

lemma natToString10_not_Nil: "natToString10 n \<noteq> []"
  by (simp add: natToString10.simps [of n])

lemma numberToString_set: "set (numberToString n) \<subseteq> set ''-0123456789''"
  using natToString10_set [of n] natToString10_set [of "- n"]
  by (auto simp: numberToString_def)

lemma numberToString_inj:
  assumes "numberToString a = numberToString b"
  shows "a = b"
proof -
  have neg: "\<And>n. n < 0 \<Longrightarrow> hd (numberToString n) = CHR ''-''"
    by (simp add: numberToString_def)
  have pos: "\<And>n. 0 \<le> n \<Longrightarrow> hd (numberToString n) \<noteq> CHR ''-''"
  proof -
    fix n :: int assume n: "0 \<le> n"
    from natToString10_not_Nil have "hd (natToString10 n) \<in> set (natToString10 n)"
      by (rule hd_in_set)
    with natToString10_set [OF n] have "hd (natToString10 n) \<in> set ''0123456789''" by blast
    with n show "hd (numberToString n) \<noteq> CHR ''-''"
      by (auto simp: numberToString_def)
  qed
  show ?thesis
  proof (cases "a < 0")
    case True
    with neg [OF True] pos [of b] assms have b: "b < 0" by force
    with True assms have "natToString10 (- a) = natToString10 (- b)"
      by (simp add: numberToString_def)
    then have "decimalValue (natToString10 (- a)) = decimalValue (natToString10 (- b))" by simp
    with True b show ?thesis by (simp add: decimalValue_natToString10)
  next
    case False
    with neg [of b] pos [of a] assms have b: "\<not> b < 0" by force
    with False assms have "natToString10 a = natToString10 b"
      by (simp add: numberToString_def)
    then have "decimalValue (natToString10 a) = decimalValue (natToString10 b)" by simp
    with False b show ?thesis by (simp add: decimalValue_natToString10)
  qed
qed

lemma takeWhile_separator:
  "c \<notin> set xs \<Longrightarrow> takeWhile (\<lambda>x. x \<noteq> c) (xs @ c # r) = xs"
  by (induction xs) auto

lemma split_at_separator:
  assumes "c \<notin> set xs" and "c \<notin> set ys" and "xs @ c # r = ys @ c # r'"
  shows "xs = ys \<and> r = r'"
proof -
  from takeWhile_separator [OF assms(1), of r] takeWhile_separator [OF assms(2), of r'] assms(3)
  have "xs = ys" by simp
  with assms(3) show ?thesis by simp
qed

lemma comma_free: "CHR '','' \<notin> set (numberToString n)" and bar_free: "CHR ''|'' \<notin> set (numberToString n)"
  using numberToString_set [of n] by auto

lemma join4_inj:
  assumes "length xs = 4" and "length ys = 4"
    and "joinStr (map numberToString xs) '','' = joinStr (map numberToString ys) '',''"
  shows "xs = ys"
proof -
  from assms(1) have x: "xs = [xs ! 0, xs ! 1, xs ! 2, xs ! 3]" by (rule list4)
  from assms(2) have y: "ys = [ys ! 0, ys ! 1, ys ! 2, ys ! 3]" by (rule list4)
  from assms(3) have e: "joinStr (map numberToString [xs ! 0, xs ! 1, xs ! 2, xs ! 3]) '',''
                       = joinStr (map numberToString [ys ! 0, ys ! 1, ys ! 2, ys ! 3]) '',''"
    using x y by simp
  then have e0: "numberToString (xs ! 0) @ CHR '','' # (numberToString (xs ! 1) @ CHR '','' #
                   (numberToString (xs ! 2) @ CHR '','' # numberToString (xs ! 3)))
               = numberToString (ys ! 0) @ CHR '','' # (numberToString (ys ! 1) @ CHR '','' #
                   (numberToString (ys ! 2) @ CHR '','' # numberToString (ys ! 3)))"
    by simp
  from split_at_separator [OF comma_free comma_free e0]
  have a0: "numberToString (xs ! 0) = numberToString (ys ! 0)"
    and e1: "numberToString (xs ! 1) @ CHR '','' # (numberToString (xs ! 2) @ CHR '','' # numberToString (xs ! 3))
           = numberToString (ys ! 1) @ CHR '','' # (numberToString (ys ! 2) @ CHR '','' # numberToString (ys ! 3))"
    by simp_all
  from split_at_separator [OF comma_free comma_free e1]
  have a1: "numberToString (xs ! 1) = numberToString (ys ! 1)"
    and e2: "numberToString (xs ! 2) @ CHR '','' # numberToString (xs ! 3)
           = numberToString (ys ! 2) @ CHR '','' # numberToString (ys ! 3)"
    by simp_all
  from split_at_separator [OF comma_free comma_free e2]
  have a2: "numberToString (xs ! 2) = numberToString (ys ! 2)"
    and a3: "numberToString (xs ! 3) = numberToString (ys ! 3)"
    by simp_all
  from a0 a1 a2 a3 have "xs ! 0 = ys ! 0" "xs ! 1 = ys ! 1" "xs ! 2 = ys ! 2" "xs ! 3 = ys ! 3"
    by (simp_all add: numberToString_inj)
  with x y show ?thesis by metis
qed

lemma join4_bar_free:
  assumes "length xs = 4"
  shows "CHR ''|'' \<notin> set (joinStr (map numberToString xs) '','')"
proof -
  from assms have x: "xs = [xs ! 0, xs ! 1, xs ! 2, xs ! 3]" by (rule list4)
  have "CHR ''|'' \<notin> set (joinStr (map numberToString [xs ! 0, xs ! 1, xs ! 2, xs ! 3]) '','')"
    using bar_free by simp
  with x show ?thesis by simp
qed

lemma keyInj_encodeStateA: "keyInj encodeStateA"
  unfolding keyInj_def
proof (intro allI impI)
  fix pos s pos' s'
  assume s: "caps4 s" and s': "caps4 s'" and e: "encodeStateA pos s = encodeStateA pos' s'"
  let ?j = "\<lambda>xs. joinStr (map numberToString xs) '',''"
  from s s' have l: "length (XCapacity s) = 4" "length (BXCapacity s) = 4" "length (BCount s) = 4"
    "length (XCapacity s') = 4" "length (BXCapacity s') = 4" "length (BCount s') = 4"
    by (simp_all add: caps4_def)
  from e have e0: "numberToString (int pos) @ CHR ''|'' # (?j (XCapacity s) @ CHR ''|'' #
                     (?j (BXCapacity s) @ CHR ''|'' # ?j (BCount s)))
                 = numberToString (int pos') @ CHR ''|'' # (?j (XCapacity s') @ CHR ''|'' #
                     (?j (BXCapacity s') @ CHR ''|'' # ?j (BCount s')))"
    by (simp add: encodeStateA_def)
  from split_at_separator [OF bar_free bar_free e0]
  have p: "numberToString (int pos) = numberToString (int pos')"
    and e1: "?j (XCapacity s) @ CHR ''|'' # (?j (BXCapacity s) @ CHR ''|'' # ?j (BCount s))
           = ?j (XCapacity s') @ CHR ''|'' # (?j (BXCapacity s') @ CHR ''|'' # ?j (BCount s'))"
    by simp_all
  from split_at_separator [OF join4_bar_free [OF l(1)] join4_bar_free [OF l(4)] e1]
  have x: "?j (XCapacity s) = ?j (XCapacity s')"
    and e2: "?j (BXCapacity s) @ CHR ''|'' # ?j (BCount s)
           = ?j (BXCapacity s') @ CHR ''|'' # ?j (BCount s')"
    by simp_all
  from split_at_separator [OF join4_bar_free [OF l(2)] join4_bar_free [OF l(5)] e2]
  have bx: "?j (BXCapacity s) = ?j (BXCapacity s')" and b: "?j (BCount s) = ?j (BCount s')"
    by simp_all
  from p have "int pos = int pos'" by (rule numberToString_inj)
  moreover from join4_inj [OF l(1) l(4) x] join4_inj [OF l(2) l(5) bx] join4_inj [OF l(3) l(6) b]
  have "columnState s = columnState s'" by (simp add: columnState_def)
  ultimately show "pos = pos' \<and> columnState s = columnState s'" by simp
qed

section \<open>From a completion back to the choices of the search\<close>

lemma rowOrder_row:
  assumes "puzzleOk P" and "pos < 16"
  shows "rowOrder P ! pos < 16" and "rowOrder P ! pos \<in> set (drop pos (rowOrder P))"
proof -
  from assms(1) have len: "length (rowOrder P) = 16" and setO: "set (rowOrder P) = {0..<16}"
    by (simp_all add: puzzleOk_def)
  from len assms(2) have "rowOrder P ! pos \<in> set (rowOrder P)" by simp
  with setO show "rowOrder P ! pos < 16" by simp
  from drop_rowOrder [OF len assms(2)] show "rowOrder P ! pos \<in> set (drop pos (rowOrder P))"
    by simp
qed

lemma completion_row:
  assumes "puzzleOk P" and "pos < 16" and "completes P pos X BX B g"
  shows "mset (g ! (rowOrder P ! pos)) = mset (rows P ! (rowOrder P ! pos))"
  using rowOrder_row(2) [OF assms(1,2)] assms(3) by (simp add: completes_def)

lemma completion_X_cell:
  assumes ok: "puzzleOk P" and pos: "pos < 16" and comp: "completes P pos X BX B g"
  shows "\<exists>colX<4. g ! (rowOrder P ! pos) ! colX = rows P ! (rowOrder P ! pos) ! 0"
proof -
  let ?r = "rowOrder P ! pos"
  from rowOrder_row(1) [OF ok pos] ok have lrow: "length (rows P ! ?r) = 4"
    by (simp add: puzzleOk_def)
  from completion_row [OF ok pos comp] have m: "mset (g ! ?r) = mset (rows P ! ?r)" .
  then have lg: "length (g ! ?r) = 4" using lrow by (metis mset_eq_length)
  from lrow have "rows P ! ?r ! 0 \<in> set (rows P ! ?r)" by (simp add: nth_mem)
  also from m have "set (rows P ! ?r) = set (g ! ?r)" by (metis mset_eq_setD)
  finally obtain i where "i < length (g ! ?r)" "g ! ?r ! i = rows P ! ?r ! 0"
    by (auto simp: in_set_conv_nth)
  with lg show ?thesis by auto
qed

lemma others_mset:
  assumes colX: "colX < 4" and lg: "length grow = 4" and lr: "length row = 4"
    and x: "grow ! colX = row ! 0" and m: "mset grow = mset row"
  shows "mset (map (\<lambda>c. grow ! c) (filter (\<lambda>c. c \<noteq> colX) [0, 1, 2, 3]))
           = {#row ! 1, row ! 2, row ! 3#}"
proof -
  have R: "mset row = add_mset (row ! 0) {#row ! 1, row ! 2, row ! 3#}"
    using mset4 [OF lr] by simp
  have G: "mset grow = {#grow ! 0, grow ! 1, grow ! 2, grow ! 3#}" using lg by (rule mset4)
  have "mset grow = add_mset (grow ! colX)
          (mset (map (\<lambda>c. grow ! c) (filter (\<lambda>c. c \<noteq> colX) [0, 1, 2, 3])))"
    using lt4_cases [OF colX] G by auto
  with m R x show ?thesis by simp
qed

lemma others_slot:
  assumes "colX < 4" and "c < 4" and "c \<noteq> colX"
  shows "map f (filter (\<lambda>c. c \<noteq> colX) [0, 1, 2, 3]) ! slot colX c = f c"
  using lt4_cases [OF assms(1)] lt4_cases [OF assms(2)] assms(3)
  by (auto simp: slot_def)

lemma completion_perm:
  assumes ok: "puzzleOk P" and cover: "permsCover P" and pos: "pos < 16" and colX: "colX < 4"
    and g4: "grid4 g" and comp: "completes P pos X BX B g"
    and x: "g ! (rowOrder P ! pos) ! colX = rows P ! (rowOrder P ! pos) ! 0"
  shows "\<exists>p3\<in>set (rowNonXPerms P ! (rowOrder P ! pos)).
           \<forall>c<4. c \<noteq> colX \<longrightarrow>
             g ! (rowOrder P ! pos) ! c = rows P ! (rowOrder P ! pos) ! (p3 ! slot colX c)"
proof -
  let ?r = "rowOrder P ! pos"
  let ?ws = "map (\<lambda>c. g ! ?r ! c) (filter (\<lambda>c. c \<noteq> colX) [0, 1, 2, 3])"
  from rowOrder_row(1) [OF ok pos] have r16: "?r < 16" .
  with ok have lrow: "length (rows P ! ?r) = 4" by (simp add: puzzleOk_def)
  from g4 r16 have lg: "length (g ! ?r) = 4" by (simp add: grid4_def)
  from others_mset [OF colX lg lrow x completion_row [OF ok pos comp]]
  have "mset ?ws = {#rows P ! ?r ! 1, rows P ! ?r ! 2, rows P ! ?r ! 3#}" .
  with cover r16 obtain p3 where p3: "p3 \<in> set (rowNonXPerms P ! ?r)"
    and w: "\<forall>i<3. rows P ! ?r ! (p3 ! i) = ?ws ! i"
    unfolding permsCover_def by blast
  have "\<forall>c<4. c \<noteq> colX \<longrightarrow> g ! ?r ! c = rows P ! ?r ! (p3 ! slot colX c)"
  proof (intro allI impI)
    fix c :: nat assume c: "c < 4" "c \<noteq> colX"
    from slot_lt3 [OF colX c] w have "rows P ! ?r ! (p3 ! slot colX c) = ?ws ! slot colX c"
      by blast
    also have "\<dots> = g ! ?r ! c" using others_slot [OF colX c] .
    finally show "g ! ?r ! c = rows P ! ?r ! (p3 ! slot colX c)" by simp
  qed
  with p3 show ?thesis by blast
qed

lemma cells_of_row:
  assumes ok: "puzzleOk P" and r16: "r < 16" and colX: "colX < 4"
    and p3: "mset p3 = mset [1, 2, 3 :: nat]"
    and x: "grow ! colX = rows P ! r ! 0"
    and o: "\<forall>c<4. c \<noteq> colX \<longrightarrow> grow ! c = rows P ! r ! (p3 ! slot colX c)"
    and c: "c < 4"
  shows "isX (grow ! c) = (c = colX)"
    and "isBXword (grow ! c) = (c = colX \<and> xIsBX P ! r)"
    and "isB (grow ! c) = (if c = colX then hasB P ! r ! 0 else hasB P ! r ! (p3 ! slot colX c))"
proof -
  let ?row = "rows P ! r"
  from ok r16 have x0: "isX (?row ! 0)"
    and nx: "\<forall>k<4. 0 < k \<longrightarrow> \<not> isX (?row ! k)"
    and hb: "\<forall>k<4. hasB P ! r ! k = isB (?row ! k)"
    and bx: "xIsBX P ! r = isBXword (?row ! 0)"
    by (simp_all add: puzzleOk_def)
  have other: "\<And>c. c < 4 \<Longrightarrow> c \<noteq> colX \<Longrightarrow>
      p3 ! slot colX c < 4 \<and> 0 < p3 ! slot colX c \<and> grow ! c = ?row ! (p3 ! slot colX c)"
  proof -
    fix c assume c: "c < 4" "c \<noteq> colX"
    from perm123_nth [OF p3 slot_lt3 [OF colX c]] o c
    show "p3 ! slot colX c < 4 \<and> 0 < p3 ! slot colX c \<and> grow ! c = ?row ! (p3 ! slot colX c)"
      by auto
  qed
  show cX: "isX (grow ! c) = (c = colX)"
    using other [OF c] x x0 nx by (metis (no_types))
  show "isBXword (grow ! c) = (c = colX \<and> xIsBX P ! r)"
    using cX x bx isBXword_isX by (metis (no_types))
  show "isB (grow ! c) = (if c = colX then hasB P ! r ! 0 else hasB P ! r ! (p3 ! slot colX c))"
  proof (cases "c = colX")
    case True
    with x hb show ?thesis by simp
  next
    case False
    with other [OF c] hb show ?thesis by simp
  qed
qed

lemma unstep_completes:
  assumes ok: "puzzleOk P" and pos: "pos < 16" and colX: "colX < 4"
    and p3: "mset p3 = mset [1, 2, 3 :: nat]"
    and s4: "caps4 s"
    and x: "g ! (rowOrder P ! pos) ! colX = rows P ! (rowOrder P ! pos) ! 0"
    and o: "\<forall>c<4. c \<noteq> colX \<longrightarrow>
              g ! (rowOrder P ! pos) ! c = rows P ! (rowOrder P ! pos) ! (p3 ! slot colX c)"
    and comp: "completes P pos (XCapacity s) (BXCapacity s) (BCount s) g"
  shows "completes P (pos + 1)
           (XCapacity (placeX P pos (rowOrder P ! pos) colX s))
           (BXCapacity (placeX P pos (rowOrder P ! pos) colX s))
           (BCount (place3 P (rowOrder P ! pos) colX p3 (placeX P pos (rowOrder P ! pos) colX s)))
           g"
proof -
  let ?r = "rowOrder P ! pos"
  let ?sx = "placeX P pos ?r colX s"
  from ok have len: "length (rowOrder P) = 16" by (simp add: puzzleOk_def)
  from rowOrder_row(1) [OF ok pos] have r16: "?r < 16" .
  have dr: "drop pos (rowOrder P) = ?r # drop (pos + 1) (rowOrder P)"
    using drop_rowOrder [OF len pos] by simp
  note cell = cells_of_row [OF ok r16 colX p3 x o]
  from s4 have l4: "length (XCapacity s) = 4" "length (BXCapacity s) = 4" "length (BCount s) = 4"
    by (simp_all add: caps4_def)
  have "\<forall>c<4. XCapacity ?sx ! c = colCount isX g (drop (pos + 1) (rowOrder P)) c \<and>
              BCount (place3 P ?r colX p3 ?sx) ! c + colCount isB g (drop (pos + 1) (rowOrder P)) c \<ge> 4 \<and>
              colCount isBXword g (drop (pos + 1) (rowOrder P)) c \<le> BXCapacity ?sx ! c"
  proof (intro allI impI)
    fix c :: nat assume c: "c < 4"
    from comp c
    have X: "XCapacity s ! c = colCount isX g (drop pos (rowOrder P)) c"
      and B: "BCount s ! c + colCount isB g (drop pos (rowOrder P)) c \<ge> 4"
      and BX: "colCount isBXword g (drop pos (rowOrder P)) c \<le> BXCapacity s ! c"
      by (simp_all add: completes_def)
    have X': "XCapacity ?sx ! c = XCapacity s ! c - (if c = colX then 1 else 0)"
      using l4 c colX by (simp add: nth_list_update)
    have BX': "BXCapacity ?sx ! c = BXCapacity s ! c - (if c = colX \<and> xIsBX P ! ?r then 1 else 0)"
      using l4 c colX by (simp add: nth_list_update)
    have "length (BCount ?sx) = 4" using l4 by simp
    from place3_BCount_nth [OF this colX c, of P ?r p3]
    have B': "BCount (place3 P ?r colX p3 ?sx) ! c =
        BCount s ! c + (if c = colX \<and> hasB P ! ?r ! 0 then 1 else 0)
          + (if c \<noteq> colX \<and> hasB P ! ?r ! (p3 ! slot colX c) then 1 else 0)"
      using l4 c colX by (simp add: nth_list_update)
    show "XCapacity ?sx ! c = colCount isX g (drop (pos + 1) (rowOrder P)) c \<and>
          BCount (place3 P ?r colX p3 ?sx) ! c + colCount isB g (drop (pos + 1) (rowOrder P)) c \<ge> 4 \<and>
          colCount isBXword g (drop (pos + 1) (rowOrder P)) c \<le> BXCapacity ?sx ! c"
      using X B BX X' BX' B' cell(1) [OF c] cell(2) [OF c] cell(3) [OF c]
      unfolding dr colCount_Cons by (auto split: if_splits)
  qed
  moreover from comp have "\<forall>r\<in>set (drop pos (rowOrder P)). mset (g ! r) = mset (rows P ! r)"
    by (simp add: completes_def)
  then have "\<forall>r\<in>set (drop (pos + 1) (rowOrder P)). mset (g ! r) = mset (rows P ! r)"
    unfolding dr by simp
  ultimately show ?thesis by (simp add: completes_def)
qed

lemma colCount_nonneg [simp]: "0 \<le> colCount p g R c"
  by (simp add: colCount_def)

lemma via_canPlaceX:
  assumes ok: "puzzleOk P" and pos: "pos < 16" and colX: "colX < 4"
    and x: "g ! (rowOrder P ! pos) ! colX = rows P ! (rowOrder P ! pos) ! 0"
    and comp: "completes P pos (XCapacity s) (BXCapacity s) (BCount s) g"
  shows "canPlaceX P pos colX s"
proof -
  let ?r = "rowOrder P ! pos"
  from ok have len: "length (rowOrder P) = 16" by (simp add: puzzleOk_def)
  from rowOrder_row(1) [OF ok pos] have r16: "?r < 16" .
  with ok have x0: "isX (rows P ! ?r ! 0)" and bx: "xIsBX P ! ?r = isBXword (rows P ! ?r ! 0)"
    by (simp_all add: puzzleOk_def)
  have dr: "drop pos (rowOrder P) = ?r # drop (pos + 1) (rowOrder P)"
    using drop_rowOrder [OF len pos] by simp
  from comp colX
  have X: "XCapacity s ! colX = colCount isX g (drop pos (rowOrder P)) colX"
    and BX: "colCount isBXword g (drop pos (rowOrder P)) colX \<le> BXCapacity s ! colX"
    by (simp_all add: completes_def)
  have "1 \<le> colCount isX g (drop pos (rowOrder P)) colX"
    unfolding dr colCount_Cons using x x0 by simp
  moreover have "xIsBX P ! ?r \<Longrightarrow> 1 \<le> colCount isBXword g (drop pos (rowOrder P)) colX"
    unfolding dr colCount_Cons using x bx by simp
  ultimately show ?thesis using X BX by (auto simp: canPlaceX_def)
qed

section \<open>The two prunes lose no completion\<close>

lemma colCount_le_length: "colCount p g R c \<le> int (length R)"
  by (simp add: colCount_def)

lemma flaggedPlaced_Suc:
  assumes "length (rowOrder P) = 16" and "pos < 16"
  shows "flaggedPlaced P (pos + 1) = flaggedPlaced P pos + flaggedIn P (rowOrder P ! pos)"
  using assms by (simp add: flaggedPlaced_def take_Suc_conv_app_nth)

lemma flaggedPlaced_rest:
  assumes "length (rowOrder P) = 16"
  shows "flaggedPlaced P 16 = flaggedPlaced P pos + sum_list (map (flaggedIn P) (drop pos (rowOrder P)))"
proof -
  have "sum_list (map (flaggedIn P) (rowOrder P))
      = sum_list (map (flaggedIn P) (take pos (rowOrder P)))
        + sum_list (map (flaggedIn P) (drop pos (rowOrder P)))"
    by (metis append_take_drop_id map_append sum_list_append)
  with assms show ?thesis by (simp add: flaggedPlaced_def)
qed

lemma flagged_rest:
  assumes ok: "puzzleOk P" and g4: "grid4 g"
    and rowsOk: "\<forall>r\<in>set R. mset (g ! r) = mset (rows P ! r)"
    and R: "set R \<subseteq> {0..<16}"
  shows "colCount isB g R 0 + colCount isB g R 1 + colCount isB g R 2 + colCount isB g R 3
           = sum_list (map (flaggedIn P) R)"
proof -
  from g4 R have "\<forall>r\<in>set R. length (g ! r) = 4" by (auto simp: grid4_def)
  from colCount_sum [OF this, of isB]
  have "colCount isB g R 0 + colCount isB g R 1 + colCount isB g R 2 + colCount isB g R 3
           = sum_list (map (\<lambda>r. int (length (filter isB (g ! r)))) R)" .
  also have "map (\<lambda>r. int (length (filter isB (g ! r)))) R = map (flaggedIn P) R"
  proof (rule map_cong [OF refl])
    fix r assume "r \<in> set R"
    with rowsOk have "mset (g ! r) = mset (rows P ! r)" by blast
    then have "mset (filter isB (g ! r)) = mset (filter isB (rows P ! r))" by simp
    then have "length (filter isB (g ! r)) = length (filter isB (rows P ! r))"
      by (rule mset_eq_length)
    then show "int (length (filter isB (g ! r))) = flaggedIn P r" by (simp add: flaggedIn_def)
  qed
  finally show ?thesis .
qed

lemma prune_sound:
  assumes full: "puzzleFull P" and pos: "pos < 16" and l4: "length B = 4"
    and sum: "sum_list B = flaggedPlaced P (pos + 1)"
    and g4: "grid4 g" and comp: "completes P (pos + 1) X BX B g"
  shows "pruneOk P (pos + 1) B"
proof -
  let ?R = "drop (pos + 1) (rowOrder P)"
  from full have ok: "puzzleOk P" and tot: "totalBInPuzzle P = flaggedPlaced P 16"
    by (simp_all add: puzzleFull_def)
  from ok have len: "length (rowOrder P) = 16" and setO: "set (rowOrder P) = {0..<16}"
    by (simp_all add: puzzleOk_def)
  from comp have rowsOk: "\<forall>r\<in>set ?R. mset (g ! r) = mset (rows P ! r)"
    and B: "\<forall>c<4. B ! c + colCount isB g ?R c \<ge> 4"
    by (simp_all add: completes_def)
  have "set ?R \<subseteq> set (rowOrder P)" by (rule set_drop_subset)
  with setO have R: "set ?R \<subseteq> {0..<16}" by simp
  from flagged_rest [OF ok g4 rowsOk R] flaggedPlaced_rest [OF len, of "pos + 1"]
  have cc: "colCount isB g ?R 0 + colCount isB g ?R 1 + colCount isB g ?R 2 + colCount isB g ?R 3
           = flaggedPlaced P 16 - flaggedPlaced P (pos + 1)"
    by simp
  from l4 have "B = [B ! 0, B ! 1, B ! 2, B ! 3]" by (rule list4)
  then have "sum_list B = sum_list [B ! 0, B ! 1, B ! 2, B ! 3]" by simp
  then have sB: "sum_list B = B ! 0 + B ! 1 + B ! 2 + B ! 3" by simp
  from B have b: "B ! 0 + colCount isB g ?R 0 \<ge> 4" "B ! 1 + colCount isB g ?R 1 \<ge> 4"
    "B ! 2 + colCount isB g ?R 2 \<ge> 4" "B ! 3 + colCount isB g ?R 3 \<ge> 4"
    by simp_all
  have n: "0 \<le> colCount isB g ?R 0" "0 \<le> colCount isB g ?R 1"
    "0 \<le> colCount isB g ?R 2" "0 \<le> colCount isB g ?R 3"
    by simp_all
  have "\<forall>c<4. B ! c + (16 - int (pos + 1)) \<ge> 4 \<and> B ! c \<le> totalBInPuzzle P - 12"
  proof (intro allI impI)
    fix c :: nat assume c: "c < 4"
    from colCount_le_length [of isB g ?R c] len pos
    have "colCount isB g ?R c \<le> 16 - int (pos + 1)" by simp
    with B c have reach: "B ! c + (16 - int (pos + 1)) \<ge> 4" by fastforce
    from b n cc sB sum tot
    have "B ! 0 \<le> totalBInPuzzle P - 12 \<and> B ! 1 \<le> totalBInPuzzle P - 12
          \<and> B ! 2 \<le> totalBInPuzzle P - 12 \<and> B ! 3 \<le> totalBInPuzzle P - 12"
      by linarith
    with lt4_cases [OF c] have "B ! c \<le> totalBInPuzzle P - 12" by auto
    with reach show "B ! c + (16 - int (pos + 1)) \<ge> 4 \<and> B ! c \<le> totalBInPuzzle P - 12" by simp
  qed
  then show ?thesis by (simp add: pruneOk_def)
qed

lemma final_unsolvable:
  assumes "length (rowOrder P) = 16" and "\<not> finalCheck s"
  shows "\<not> solvableFrom P 16 (XCapacity s) (BXCapacity s) (BCount s)"
proof
  assume "solvableFrom P 16 (XCapacity s) (BXCapacity s) (BCount s)"
  then obtain g where "completes P 16 (XCapacity s) (BXCapacity s) (BCount s) g"
    by (auto simp: solvableFrom_def)
  with assms(1) have "\<forall>c<4. XCapacity s ! c = 0 \<and> 4 \<le> BCount s ! c \<and> 0 \<le> BXCapacity s ! c"
    by (simp add: completes_def)
  then have "finalCheck s" by (simp add: finalCheck_def list_all_iff Ball_def not_less)
  with assms(2) show False by simp
qed

section \<open>The flagged words counted so far\<close>

lemma sum4: "length xs = 4 \<Longrightarrow> sum_list xs = xs ! 0 + xs ! 1 + xs ! 2 + (xs ! 3 :: int)"
proof -
  assume "length xs = 4"
  then have "xs = [xs ! 0, xs ! 1, xs ! 2, xs ! 3]" by (rule list4)
  then have "sum_list xs = sum_list [xs ! 0, xs ! 1, xs ! 2, xs ! 3]" by simp
  then show ?thesis by simp
qed

lemma placeX_sum:
  assumes "length (BCount s) = 4" and "colX < 4"
  shows "sum_list (BCount (placeX P pos r colX s))
           = sum_list (BCount s) + (if hasB P ! r ! 0 then 1 else 0)"
proof -
  have "length (BCount (placeX P pos r colX s)) = 4" using assms(1) by simp
  from sum4 [OF this] sum4 [OF assms(1)] lt4_cases [OF assms(2)] assms(1) show ?thesis
    by (auto simp: nth_list_update)
qed

lemma place3_sum:
  assumes l4: "length (BCount s) = 4" and colX: "colX < 4" and p3: "mset p3 = mset [1, 2, 3 :: nat]"
  shows "sum_list (BCount (place3 P r colX p3 s))
           = sum_list (BCount s) + (if hasB P ! r ! 1 then 1 else 0)
             + (if hasB P ! r ! 2 then 1 else 0) + (if hasB P ! r ! 3 then 1 else 0)"
proof -
  let ?f = "\<lambda>k. if hasB P ! r ! k then 1 else 0 :: int"
  have l4': "length (BCount (place3 P r colX p3 s)) = 4" using l4 by simp
  from perm123_image [OF p3, of ?f]
  have "sum_mset {#?f (p3 ! 0), ?f (p3 ! 1), ?f (p3 ! 2)#} = sum_mset {#?f 1, ?f 2, ?f 3#}"
    by simp
  then have perm: "?f (p3 ! 0) + ?f (p3 ! 1) + ?f (p3 ! 2) = ?f 1 + ?f 2 + ?f 3"
    by (simp add: add.assoc)
  have nth: "\<And>c. c < 4 \<Longrightarrow> BCount (place3 P r colX p3 s) ! c =
           BCount s ! c + (if c \<noteq> colX then ?f (p3 ! slot colX c) else 0)"
    using place3_BCount_nth [OF l4 colX, of _ P r p3] by simp
  have "sum_list (BCount (place3 P r colX p3 s))
          = sum_list (BCount s) + (?f (p3 ! 0) + ?f (p3 ! 1) + ?f (p3 ! 2))"
    unfolding sum4 [OF l4'] sum4 [OF l4]
    using lt4_cases [OF colX] nth [of 0] nth [of 1] nth [of 2] nth [of 3]
    by (elim disjE) (simp_all add: slot_def)
  with perm show ?thesis by simp
qed

lemma flaggedIn_hasB:
  assumes "puzzleOk P" and "r < 16"
  shows "flaggedIn P r = (if hasB P ! r ! 0 then 1 else 0) + (if hasB P ! r ! 1 then 1 else 0)
           + (if hasB P ! r ! 2 then 1 else 0) + (if hasB P ! r ! 3 then 1 else 0)"
proof -
  from assms have l: "length (rows P ! r) = 4"
    and hb: "\<forall>k<4. hasB P ! r ! k = isB (rows P ! r ! k)"
    by (simp_all add: puzzleOk_def)
  from l have "rows P ! r = [rows P ! r ! 0, rows P ! r ! 1, rows P ! r ! 2, rows P ! r ! 3]"
    by (rule list4)
  from arg_cong [OF this, of "\<lambda>xs. int (length (filter isB xs))"] hb show ?thesis
    by (simp add: flaggedIn_def)
qed

section \<open>An exhausted search leaves no completion\<close>

text \<open>
  With a key function that tells the states apart, a search that returns
  \<open>false\<close> has tried every placement: no grid completes the state it
  started from, and the entries it added to the memo table are right.
\<close>

lemma memoSound_store:
  assumes m: "memoSound enc P m"
    and key: "\<forall>pos' s'. caps4 s' \<longrightarrow> enc pos' s' = k \<longrightarrow> pos' = pos \<and> columnState s' = columnState s"
    and un: "\<not> solvableFrom P pos (XCapacity s) (BXCapacity s) (BCount s)"
  shows "memoSound enc P (m(k \<mapsto> False))"
  unfolding memoSound_def
proof (intro allI impI)
  fix pos' s'
  assume s': "caps4 s'" and e: "(m(k \<mapsto> False)) (enc pos' s') = Some False"
  show "\<not> solvableFrom P pos' (XCapacity s') (BXCapacity s') (BCount s')"
  proof (cases "enc pos' s' = k")
    case True
    with key s' have "pos' = pos" "columnState s' = columnState s" by blast+
    with un show ?thesis by (simp add: columnState_def)
  next
    case False
    with e have "m (enc pos' s') = Some False" by simp
    with m s' show ?thesis by (simp add: memoSound_def)
  qed
qed

lemma complete_search:
  assumes full: "puzzleFull P" and inj: "keyInj enc"
  shows "pos \<le> 16 \<Longrightarrow> caps4 s0 \<Longrightarrow> sum_list (BCount s0) = flaggedPlaced P pos \<Longrightarrow>
           memoSound enc P (memo s0) \<Longrightarrow> \<not> fst (assignRow enc P pos s0) \<Longrightarrow>
           \<not> solvableFrom P pos (XCapacity s0) (BXCapacity s0) (BCount s0)
           \<and> memoSound enc P (memo (snd (assignRow enc P pos s0)))"
    and "pos < 16 \<Longrightarrow> caps4 s \<Longrightarrow> sum_list (BCount s) = flaggedPlaced P pos \<Longrightarrow>
           memoSound enc P (memo s) \<Longrightarrow>
           \<forall>pos' s'. caps4 s' \<longrightarrow> enc pos' s' = k \<longrightarrow> pos' = pos \<and> columnState s' = columnState s \<Longrightarrow>
           \<forall>c<colX. \<not> solvableVia P pos c (XCapacity s) (BXCapacity s) (BCount s) \<Longrightarrow>
           \<not> fst (colLoop enc P pos k colX s) \<Longrightarrow>
           \<not> solvableFrom P pos (XCapacity s) (BXCapacity s) (BCount s)
           \<and> memoSound enc P (memo (snd (colLoop enc P pos k colX s)))"
    and "pos < 16 \<Longrightarrow> colX < 4 \<Longrightarrow> \<forall>p3\<in>set ps. mset p3 = mset [1, 2, 3] \<Longrightarrow> caps4 s \<Longrightarrow>
           sum_list (BCount s)
             = flaggedPlaced P pos + (if hasB P ! (rowOrder P ! pos) ! 0 then 1 else 0) \<Longrightarrow>
           memoSound enc P (memo s) \<Longrightarrow> \<not> fst (permLoop enc P pos colX ps s) \<Longrightarrow>
           (\<forall>p3\<in>set ps. \<not> solvableFrom P (pos + 1) (XCapacity s) (BXCapacity s)
                            (BCount (place3 P (rowOrder P ! pos) colX p3 s)))
           \<and> memoSound enc P (memo (snd (permLoop enc P pos colX ps s)))"
proof (induction pos s0 and pos k colX s and pos colX ps s rule: search_induct [where enc = enc and P = P])
  case (assignRow pos s0)
  from full have ok: "puzzleOk P" by (simp add: puzzleFull_def)
  then have len: "length (rowOrder P) = 16" by (simp add: puzzleOk_def)
  consider "pos < 16" | "pos = 16" by (metis assignRow.prems(1) le_neq_implies_less)
  then show ?case
  proof cases
    case 1
    let ?s = "enter pos s0"
    from assignRow.prems have e: "caps4 ?s" "sum_list (BCount ?s) = flaggedPlaced P pos"
      "memoSound enc P (memo ?s)"
      by (simp_all add: caps4_def)
    show ?thesis
    proof (cases "memo s0 (enc pos ?s)")
      case None
      from assignRow.prems(5) 1 None
      have f: "\<not> fst (colLoop enc P pos (enc pos ?s) 0 ?s)"
        by (simp add: assignRow_miss)
      from inj e(1)
      have key: "\<forall>pos' s'. caps4 s' \<longrightarrow> enc pos' s' = enc pos ?s \<longrightarrow>
                   pos' = pos \<and> columnState s' = columnState ?s"
        unfolding keyInj_def by blast
      have none: "\<forall>c<0. \<not> solvableVia P pos c (XCapacity ?s) (BXCapacity ?s) (BCount ?s)" by simp
      from assignRow.IH [OF 1 _ 1 e key none f] None 1 show ?thesis
        by (simp add: assignRow_miss)
    next
      case (Some b)
      with assignRow.prems(5) 1 have "memo s0 (enc pos ?s) = Some False"
        by (simp add: assignRow_hit)
      moreover from assignRow.prems(4)
      have "caps4 ?s \<longrightarrow> memo s0 (enc pos ?s) = Some False \<longrightarrow>
              \<not> solvableFrom P pos (XCapacity ?s) (BXCapacity ?s) (BCount ?s)"
        unfolding memoSound_def by blast
      ultimately have "\<not> solvableFrom P pos (XCapacity ?s) (BXCapacity ?s) (BCount ?s)"
        using e(1) by blast
      with Some 1 assignRow.prems(4) show ?thesis
        by (simp add: assignRow_hit)
    qed
  next
    case 2
    with assignRow.prems(5) have "\<not> finalCheck (enter 16 s0)" by (simp add: assignRow_final)
    from final_unsolvable [OF len this] 2 assignRow.prems(4) show ?thesis
      by (simp add: assignRow_final)
  qed
next
  case (colLoop pos k colX s)
  note pos = \<open>pos < 16\<close>
  let ?row = "rowOrder P ! pos"
  from full have ok: "puzzleOk P" and cover: "permsCover P" by (simp_all add: puzzleFull_def)
  from ok have len: "length (rowOrder P) = 16" by (simp add: puzzleOk_def)
  from rowOrder_row(1) [OF ok pos] have r16: "?row < 16" .
  note s4 = colLoop.prems(2) and sum = colLoop.prems(3) and ms = colLoop.prems(4)
    and key = colLoop.prems(5) and before = colLoop.prems(6) and fail = colLoop.prems(7)
  show ?case
  proof (cases "colX < 4")
    case False
    have un: "\<not> solvableFrom P pos (XCapacity s) (BXCapacity s) (BCount s)"
    proof
      assume "solvableFrom P pos (XCapacity s) (BXCapacity s) (BCount s)"
      then obtain g where g: "grid4 g" "completes P pos (XCapacity s) (BXCapacity s) (BCount s) g"
        by (auto simp: solvableFrom_def)
      from completion_X_cell [OF ok pos g(2)] obtain c where "c < 4"
        "g ! ?row ! c = rows P ! ?row ! 0" by blast
      with g False have "c < colX" "solvableVia P pos c (XCapacity s) (BXCapacity s) (BCount s)"
        by (auto simp: solvableVia_def)
      with before show False by blast
    qed
    from memoSound_store [OF ms key un] un False show ?thesis
      by (simp add: colLoop_done fun_upd_def)
  next
    case c: True
    show ?thesis
    proof (cases "canPlaceX P pos colX s")
      case False
      have "\<not> solvableVia P pos colX (XCapacity s) (BXCapacity s) (BCount s)"
        using via_canPlaceX [OF ok pos c] False by (auto simp: solvableVia_def)
      with before have b': "\<forall>c<colX + 1. \<not> solvableVia P pos c (XCapacity s) (BXCapacity s) (BCount s)"
        by (auto simp: less_Suc_eq)
      from fail c False have "\<not> fst (colLoop enc P pos k (colX + 1) s)"
        by (simp add: colLoop_skip)
      from colLoop.IH(1) [OF c False pos s4 sum ms key b' this] c False show ?thesis
        by (simp add: colLoop_skip)
    next
      case can: True
      let ?sx = "placeX P pos ?row colX s"
      let ?r = "permLoop enc P pos colX (rowNonXPerms P ! ?row) ?sx"
      let ?s2 = "revertX colX (XCapacity s ! colX) (BXCapacity s ! colX) (BCount s) (snd ?r)"
      from s4 have sx4: "caps4 ?sx" by (simp add: caps4_def)
      from s4 have lB: "length (BCount s) = 4" by (simp add: caps4_def)
      from placeX_sum [OF lB c, of P pos ?row] sum
      have sxsum: "sum_list (BCount ?sx)
                     = flaggedPlaced P pos + (if hasB P ! ?row ! 0 then 1 else 0)"
        by simp
      from ms have sxm: "memoSound enc P (memo ?sx)" by simp
      from ok r16 have perms: "\<forall>p3\<in>set (rowNonXPerms P ! ?row). mset p3 = mset [1, 2, 3]"
        by (simp add: puzzleOk_def)
      from fail c can have nf: "\<not> fst ?r"
        by (auto simp: colLoop_found)
      from colLoop.IH(2) [OF c can pos c perms sx4 sxsum sxm nf]
      have none: "\<forall>p3\<in>set (rowNonXPerms P ! ?row).
                    \<not> solvableFrom P (pos + 1) (XCapacity ?sx) (BXCapacity ?sx)
                        (BCount (place3 P ?row colX p3 ?sx))"
        and rm: "memoSound enc P (memo (snd ?r))" by blast+
      have nv: "\<not> solvableVia P pos colX (XCapacity s) (BXCapacity s) (BCount s)"
      proof
        assume "solvableVia P pos colX (XCapacity s) (BXCapacity s) (BCount s)"
        then obtain g where g4: "grid4 g"
          and comp: "completes P pos (XCapacity s) (BXCapacity s) (BCount s) g"
          and x: "g ! ?row ! colX = rows P ! ?row ! 0"
          by (auto simp: solvableVia_def)
        from completion_perm [OF ok cover pos c g4 comp x]
        obtain p3 where p3: "p3 \<in> set (rowNonXPerms P ! ?row)"
          and o: "\<forall>c<4. c \<noteq> colX \<longrightarrow> g ! ?row ! c = rows P ! ?row ! (p3 ! slot colX c)"
          by blast
        from perms p3 have "mset p3 = mset [1, 2, 3]" by blast
        from unstep_completes [OF ok pos c this s4 x o comp] g4
        have "solvableFrom P (pos + 1) (XCapacity ?sx) (BXCapacity ?sx)
                (BCount (place3 P ?row colX p3 ?sx))"
          by (auto simp: solvableFrom_def)
        with none p3 show False by blast
      qed
      with before have b': "\<forall>c<colX + 1. \<not> solvableVia P pos c (XCapacity s) (BXCapacity s) (BCount s)"
        by (auto simp: less_Suc_eq)
      from revert_after_fail [OF s4 nf]
      have s2c: "columnState ?s2 = columnState s" and s24: "caps4 ?s2" .
      then have eqs: "XCapacity ?s2 = XCapacity s" "BXCapacity ?s2 = BXCapacity s"
        "BCount ?s2 = BCount s"
        by (simp_all add: columnState_def)
      from sum eqs have s2sum: "sum_list (BCount ?s2) = flaggedPlaced P pos" by simp
      from rm have s2m: "memoSound enc P (memo ?s2)" by simp
      from key s2c have s2k: "\<forall>pos' s'. caps4 s' \<longrightarrow> enc pos' s' = k \<longrightarrow>
                                pos' = pos \<and> columnState s' = columnState ?s2"
        by (simp only:)
      from b' eqs have s2b: "\<forall>c<colX + 1. \<not> solvableVia P pos c (XCapacity ?s2) (BXCapacity ?s2) (BCount ?s2)"
        by simp
      from fail c can nf have "\<not> fst (colLoop enc P pos k (colX + 1) ?s2)"
        by (simp add: colLoop_next)
      from colLoop.IH(3) [OF c can nf pos s24 s2sum s2m s2k s2b this] eqs c can nf show ?thesis
        by (simp add: colLoop_next)
    qed
  qed
next
  case (permNil pos colX s)
  then show ?case by (simp add: permLoop_Nil)
next
  case (permCons pos colX p3 rest s)
  note pos = \<open>pos < 16\<close> and c = \<open>colX < 4\<close>
  let ?row = "rowOrder P ! pos"
  let ?s1 = "place3 P ?row colX p3 s"
  from full have ok: "puzzleOk P" by (simp add: puzzleFull_def)
  from ok have len: "length (rowOrder P) = 16" by (simp add: puzzleOk_def)
  from rowOrder_row(1) [OF ok pos] have r16: "?row < 16" .
  note s4 = permCons.prems(4) and sum = permCons.prems(5) and ms = permCons.prems(6)
    and fail = permCons.prems(7)
  from permCons.prems(3) have p3: "mset p3 = mset [1, 2, 3]"
    and prest: "\<forall>p3\<in>set rest. mset p3 = mset [1, 2, 3]" by simp_all
  from s4 have lB: "length (BCount s) = 4" by (simp add: caps4_def)
  from s4 have s14: "caps4 ?s1" by (simp add: caps4_def)
  from place3_sum [OF lB c p3, of P ?row] sum flaggedIn_hasB [OF ok r16]
    flaggedPlaced_Suc [OF len pos]
  have s1sum: "sum_list (BCount ?s1) = flaggedPlaced P (pos + 1)" by simp
  from ms have s1m: "memoSound enc P (memo ?s1)" by simp
  show ?case
  proof (cases "pruneValid P pos ?s1")
    case False
    let ?s2 = "restoreB (BCount s) ?s1"
    from s14 s4 have s2B: "BCount ?s2 = BCount s" and s24: "caps4 ?s2"
      by (simp_all add: caps4_def restoreB_BCount)
    have un: "\<not> solvableFrom P (pos + 1) (XCapacity s) (BXCapacity s) (BCount ?s1)"
    proof
      assume "solvableFrom P (pos + 1) (XCapacity s) (BXCapacity s) (BCount ?s1)"
      then obtain g where "grid4 g" "completes P (pos + 1) (XCapacity s) (BXCapacity s) (BCount ?s1) g"
        by (auto simp: solvableFrom_def)
      from prune_sound [OF full pos _ s1sum this] lB have "pruneOk P (pos + 1) (BCount ?s1)"
        by simp
      with False show False by (simp add: pruneValid_pruneOk)
    qed
    from sum s2B have s2sum: "sum_list (BCount ?s2)
        = flaggedPlaced P pos + (if hasB P ! ?row ! 0 then 1 else 0)" by simp
    from s1m have s2m: "memoSound enc P (memo ?s2)" by simp
    from fail False have "\<not> fst (permLoop enc P pos colX rest ?s2)"
      by (simp add: permLoop_pruned)
    from permCons.IH(3) [OF False pos c prest s24 s2sum s2m this]
    have "\<forall>q\<in>set rest. \<not> solvableFrom P (pos + 1) (XCapacity ?s2) (BXCapacity ?s2)
                            (BCount (place3 P ?row colX q ?s2))"
      and "memoSound enc P (memo (snd (permLoop enc P pos colX rest ?s2)))" by blast+
    with place3_BCount_cong [OF s2B] un False show ?thesis
      by (simp add: permLoop_pruned)
  next
    case valid: True
    let ?r = "assignRow enc P (pos + 1) ?s1"
    from pos have pos1: "pos + 1 \<le> 16" by simp
    from fail valid have nf: "\<not> fst ?r" by (auto simp: permLoop_found)
    from permCons.IH(1) [OF valid pos1 s14 s1sum s1m nf]
    have un: "\<not> solvableFrom P (pos + 1) (XCapacity s) (BXCapacity s) (BCount ?s1)"
      and rm: "memoSound enc P (memo (snd ?r))" by simp_all
    let ?s2 = "restoreB (BCount s) (snd ?r)"
    from restore_after_fail [OF s4 nf]
    have s2c: "columnState ?s2 = columnState s" and s24: "caps4 ?s2" .
    then have eqs: "XCapacity ?s2 = XCapacity s" "BXCapacity ?s2 = BXCapacity s"
      "BCount ?s2 = BCount s"
      by (simp_all add: columnState_def)
    from sum eqs have s2sum: "sum_list (BCount ?s2)
        = flaggedPlaced P pos + (if hasB P ! ?row ! 0 then 1 else 0)" by simp
    from rm have s2m: "memoSound enc P (memo ?s2)" by simp
    from fail valid nf have "\<not> fst (permLoop enc P pos colX rest ?s2)"
      by (simp add: permLoop_next)
    from permCons.IH(2) [OF valid nf pos c prest s24 s2sum s2m this]
    have "\<forall>q\<in>set rest. \<not> solvableFrom P (pos + 1) (XCapacity ?s2) (BXCapacity ?s2)
                            (BCount (place3 P ?row colX q ?s2))"
      and "memoSound enc P (memo (snd (permLoop enc P pos colX rest ?s2)))" by blast+
    with place3_BCount_cong [OF eqs(3)] eqs un valid nf show ?thesis
      by (simp add: permLoop_next)
  qed
qed

section \<open>The puzzle data of an input with one marked word in every row\<close>

lemma perms_AB:
  "uniquePermutationsOf3 [''A'', ''A'', ''A''] [1, 2, 3] = [[1, 2, 3]]"
  "uniquePermutationsOf3 [''A'', ''A'', ''B''] [1, 2, 3] = [[1, 2, 3], [1, 3, 2], [3, 1, 2]]"
  "uniquePermutationsOf3 [''A'', ''B'', ''A''] [1, 2, 3] = [[1, 3, 2], [1, 2, 3], [2, 1, 3]]"
  "uniquePermutationsOf3 [''A'', ''B'', ''B''] [1, 2, 3] = [[1, 2, 3], [2, 1, 3], [2, 3, 1]]"
  "uniquePermutationsOf3 [''B'', ''A'', ''A''] [1, 2, 3] = [[2, 3, 1], [2, 1, 3], [1, 2, 3]]"
  "uniquePermutationsOf3 [''B'', ''A'', ''B''] [1, 2, 3] = [[2, 1, 3], [1, 2, 3], [1, 3, 2]]"
  "uniquePermutationsOf3 [''B'', ''B'', ''A''] [1, 2, 3] = [[3, 1, 2], [1, 3, 2], [1, 2, 3]]"
  "uniquePermutationsOf3 [''B'', ''B'', ''B''] [1, 2, 3] = [[1, 2, 3]]"
  by code_simp+

lemma all_lt3: "(\<forall>i<3. Q i) = (Q 0 \<and> Q 1 \<and> Q (2::nat))"
proof -
  have "\<And>i. i < 3 \<longleftrightarrow> i = 0 \<or> i = 1 \<or> i = (2::nat)" by auto
  then show ?thesis by auto
qed

lemma cover_AB:
  assumes a: "a = ''A'' \<or> a = ''B''" and b: "b = ''A'' \<or> b = ''B''" and c: "c = ''A'' \<or> c = ''B''"
    and m: "mset ws = {#a, b, c#}"
  shows "\<exists>p3\<in>set (uniquePermutationsOf3 [a, b, c] [1, 2, 3]). \<forall>i<3. [x, a, b, c] ! (p3 ! i) = ws ! i"
proof -
  from m have "length ws = 3" using mset_eq_length [of ws "[a, b, c]"] by simp
  then have "ws = [ws ! 0, ws ! 1, ws ! 2]" by (rule list3)
  then obtain u v w where ws: "ws = [u, v, w]" by blast
  with m have m': "{#u, v, w#} = {#a, b, c#}" by simp
  then have "set_mset {#u, v, w#} = set_mset {#a, b, c#}" by simp
  then have "{u, v, w} = {a, b, c}" by simp
  then have "u \<in> {a, b, c}" "v \<in> {a, b, c}" "w \<in> {a, b, c}" by blast+
  with a b c have uvw: "u = ''A'' \<or> u = ''B''" "v = ''A'' \<or> v = ''B''" "w = ''A'' \<or> w = ''B''"
    by auto
  from arg_cong [OF m', of "\<lambda>M. count M ''B''"]
  have cB: "(if u = ''B'' then 1 else 0 :: nat) + (if v = ''B'' then 1 else 0) + (if w = ''B'' then 1 else 0)
          = (if a = ''B'' then 1 else 0) + (if b = ''B'' then 1 else 0) + (if c = ''B'' then 1 else 0)"
    by (auto split: if_splits)
  have "\<exists>p3\<in>set (uniquePermutationsOf3 [a, b, c] [1, 2, 3]). \<forall>i<3. [x, a, b, c] ! (p3 ! i) = [u, v, w] ! i"
    apply (insert a b c uvw cB)
    apply (elim disjE)
    apply (simp_all only: perms_AB)
    apply (simp_all add: all_lt3)
    done
  with ws show ?thesis by simp
qed

lemma sum_list_mset_cong:
  "mset xs = mset ys \<Longrightarrow> sum_list (map f xs) = sum_list (map f (ys :: nat list) :: int list)"
  by (metis mset_map sum_mset_sum_list)

lemma row_words:
  assumes pc: "passesChecks ls" and om: "oneMarked ls" and r: "r < 16"
  shows "length (parseLine (ls ! r)) = 4"
    and "\<forall>k<4. allowedWord (parseLine (ls ! r) ! k)"
    and "\<forall>k<4. 0 < k \<longrightarrow> parseLine (ls ! r) ! k = ''A'' \<or> parseLine (ls ! r) ! k = ''B''"
proof -
  from pc have len: "length ls = 16" by (simp add: passesChecks_def)
  from passesChecks_line [OF pc r]
  have l4: "length (wordsOf (ls ! r)) = 4" and al: "\<forall>w\<in>set (wordsOf (ls ! r)). allowedWord w" .
  from om r len have one: "length (filter isX (wordsOf (ls ! r))) = 1"
    by (simp add: oneMarked_def list_all_iff)
  show p4: "length (parseLine (ls ! r)) = 4" using l4 by (simp add: wordsOf_def)
  show pal: "\<forall>k<4. allowedWord (parseLine (ls ! r) ! k)"
  proof (intro allI impI)
    fix k :: nat assume "k < 4"
    with p4 have "k < length (parseLine (ls ! r))" by simp
    then have "parseLine (ls ! r) ! k \<in> set (parseLine (ls ! r))" by (rule nth_mem)
    with al show "allowedWord (parseLine (ls ! r) ! k)" by (simp add: wordsOf_def)
  qed
  from parseLine_marked_first [OF l4 al one]
  have "\<forall>k<4. 0 < k \<longrightarrow> \<not> isX (parseLine (ls ! r) ! k)" by simp
  with pal show "\<forall>k<4. 0 < k \<longrightarrow> parseLine (ls ! r) ! k = ''A'' \<or> parseLine (ls ! r) ! k = ''B''"
    by (auto simp: isX_def dest!: allowedWord_cases)
qed

lemma countB_flagged:
  assumes "length row = 4" and "\<forall>k<4. allowedWord (row ! k)"
  shows "countB row = int (length (filter isB row))"
proof -
  from assms(1) have "row = [row ! 0, row ! 1, row ! 2, row ! 3]" by (rule list4)
  from arg_cong [OF this, of "\<lambda>xs. int (length (filter isB xs))"] assms(2) show ?thesis
    by (simp add: countB_def upt4 includesB_isB)
qed

lemma puzzleFull_mkPuzzle:
  assumes pc: "passesChecks ls" and om: "oneMarked ls"
  shows "puzzleFull (mkPuzzle (map parseLine ls))"
proof -
  let ?rs = "map parseLine ls"
  let ?P = "mkPuzzle ?rs"
  from pc have len: "length ls = 16" by (simp add: passesChecks_def)
  have ok: "puzzleOk ?P" using pc om by (rule puzzleOk_mkPuzzle)
  have cover: "permsCover ?P"
    unfolding permsCover_def
  proof (intro allI impI)
    fix r :: nat and ws
    assume r: "r < 16" and m: "mset ws = {#rows ?P ! r ! 1, rows ?P ! r ! 2, rows ?P ! r ! 3#}"
    let ?row = "parseLine (ls ! r)"
    from r len have rr: "rows ?P ! r = ?row" by simp
    note w = row_words [OF pc om r]
    from w(1) have row: "?row = [?row ! 0, ?row ! 1, ?row ! 2, ?row ! 3]" by (rule list4)
    from w(3) have ab: "?row ! 1 = ''A'' \<or> ?row ! 1 = ''B''" "?row ! 2 = ''A'' \<or> ?row ! 2 = ''B''"
      "?row ! 3 = ''A'' \<or> ?row ! 3 = ''B''" by simp_all
    from m rr have m': "mset ws = {#?row ! 1, ?row ! 2, ?row ! 3#}" by simp
    have perms: "rowNonXPerms ?P ! r = uniquePermutationsOf3 [?row ! 1, ?row ! 2, ?row ! 3] [1, 2, 3]"
      using r len by (simp add: makeUniquePerms3_def del: upt_Suc)
    from cover_AB [OF ab m', of "?row ! 0"]
    obtain p3 where "p3 \<in> set (uniquePermutationsOf3 [?row ! 1, ?row ! 2, ?row ! 3] [1, 2, 3])"
      and "\<forall>i<3. [?row ! 0, ?row ! 1, ?row ! 2, ?row ! 3] ! (p3 ! i) = ws ! i" by blast
    with perms row rr show "\<exists>p3\<in>set (rowNonXPerms ?P ! r). \<forall>i<3. rows ?P ! r ! (p3 ! i) = ws ! i"
      by metis
  qed
  have fl: "\<And>r. r < 16 \<Longrightarrow> countB (?rs ! r) = flaggedIn ?P r"
  proof -
    fix r :: nat assume r: "r < 16"
    note w = row_words [OF pc om r]
    from countB_flagged [OF w(1,2)] r len show "countB (?rs ! r) = flaggedIn ?P r"
      by (simp add: flaggedIn_def)
  qed
  have "totalBInPuzzle ?P = sum_list (map (\<lambda>i. countB (?rs ! i)) [0..<16])"
    by (simp add: mkPuzzle_def Let_def)
  also have "map (\<lambda>i. countB (?rs ! i)) [0..<16] = map (flaggedIn ?P) [0..<16]"
    using fl by (intro map_cong) simp_all
  also have "sum_list (map (flaggedIn ?P) [0..<16]) = sum_list (map (flaggedIn ?P) (rowOrder ?P))"
    by (rule sum_list_mset_cong) simp
  also have "\<dots> = flaggedPlaced ?P 16" by (simp add: flaggedPlaced_def)
  finally have "totalBInPuzzle ?P = flaggedPlaced ?P 16" .
  with ok cover show ?thesis by (simp add: puzzleFull_def)
qed

section \<open>A solvable puzzle is solved\<close>

lemma solves_solvableFrom:
  assumes pc: "passesChecks ls" and sol: "solves (map wordsOf ls) g"
  shows "solvableFrom (mkPuzzle (map parseLine ls)) 0 [4, 4, 4, 4] [1, 1, 1, 1] [0, 0, 0, 0]"
proof -
  let ?P = "mkPuzzle (map parseLine ls)"
  from pc have len: "length ls = 16" by (simp add: passesChecks_def)
  from sol have lg: "length g = 16"
    and rowsOk: "\<forall>i<16. mset (g ! i) = mset (map wordsOf ls ! i)"
    and cols: "\<forall>c<4. colCount isX g [0..<16] c = 4 \<and> colCount isB g [0..<16] c \<ge> 4
                 \<and> colCount isBXword g [0..<16] c \<le> 1"
    by (simp_all add: solves_def)
  have rows': "\<forall>r<16. mset (g ! r) = mset (rows ?P ! r) \<and> length (g ! r) = 4"
  proof (intro allI impI)
    fix r :: nat assume r: "r < 16"
    with rowsOk len have m: "mset (g ! r) = mset (wordsOf (ls ! r))" by simp
    then have "length (g ! r) = length (wordsOf (ls ! r))" by (rule mset_eq_length)
    with passesChecks_line(1) [OF pc r] have "length (g ! r) = 4" by simp
    with m r len show "mset (g ! r) = mset (rows ?P ! r) \<and> length (g ! r) = 4"
      by (simp add: wordsOf_def)
  qed
  with lg have g4: "grid4 g" by (simp add: grid4_def)
  have msO: "mset (rowOrder ?P) = mset [0..<16]" by simp
  have "completes ?P 0 [4, 4, 4, 4] [1, 1, 1, 1] [0, 0, 0, 0] g"
    unfolding completes_def
  proof (intro conjI ballI allI impI)
    fix r assume "r \<in> set (drop 0 (rowOrder ?P))"
    then have "r < 16" by simp
    with rows' show "mset (g ! r) = mset (rows ?P ! r)" by simp
  next
    fix c :: nat assume c: "c < 4"
    from lt4_cases [OF c] have v: "[4, 4, 4, 4 :: int] ! c = 4" "[0, 0, 0, 0 :: int] ! c = 0"
      "[1, 1, 1, 1 :: int] ! c = 1" by auto
    from cols c colCount_mset [OF msO, of _ g c] v
    show "[4, 4, 4, 4] ! c = colCount isX g (drop 0 (rowOrder ?P)) c"
      and "4 \<le> [0, 0, 0, 0] ! c + colCount isB g (drop 0 (rowOrder ?P)) c"
      and "colCount isBXword g (drop 0 (rowOrder ?P)) c \<le> [1, 1, 1, 1] ! c"
      by simp_all
  qed
  with g4 show ?thesis by (auto simp: solvableFrom_def)
qed

lemma solveWith_complete:
  assumes inj: "keyInj enc" and pc: "passesChecks ls" and om: "oneMarked ls"
    and sol: "solves (map wordsOf ls) g"
  shows "\<exists>g'. solveWith enc ls = Inr g'"
proof -
  let ?P = "mkPuzzle (map parseLine ls)"
  have full: "puzzleFull ?P" using pc om by (rule puzzleFull_mkPuzzle)
  have "fst (assignRow enc ?P 0 initState)"
  proof (rule ccontr)
    assume nf: "\<not> fst (assignRow enc ?P 0 initState)"
    have c4: "caps4 initState" by (simp add: caps4_def)
    have s0: "sum_list (BCount initState) = flaggedPlaced ?P 0" by (simp add: flaggedPlaced_def)
    have m0: "memoSound enc ?P (memo initState)" by (simp add: memoSound_def)
    from complete_search(1) [OF full inj _ c4 s0 m0 nf]
    have "\<not> solvableFrom ?P 0 [4, 4, 4, 4] [1, 1, 1, 1] [0, 0, 0, 0]" by simp
    with solves_solvableFrom [OF pc sol] show False by simp
  qed
  with passesChecks_solveWith [OF pc, of enc] show ?thesis by simp
qed

section \<open>The verdicts of the two solvers\<close>

lemma solveWith_verdict:
  assumes "passesChecks ls" and "oneMarked ls"
  shows "solveWith enc ls = Inl NoValidSolution
           \<or> (\<exists>g. solveWith enc ls = Inr g \<and> solves (map wordsOf ls) g)"
proof (cases "fst (assignRow enc (mkPuzzle (map parseLine ls)) 0 initState)")
  case False
  with passesChecks_solveWith [OF assms(1), of enc] show ?thesis by simp
next
  case True
  with passesChecks_solveWith [OF assms(1), of enc]
  obtain g where g: "solveWith enc ls = Inr g" by simp
  from solveWith_sound [OF assms g] g show ?thesis by simp
qed

text \<open>
  Claim C3, as amended.  Let the input pass the three checks and have exactly
  one marked word in every row.  Each of the two solvers, the one with the
  text key and the one with the bit-packed key, ends with the error of the
  exhausted search or returns a grid that solves the puzzle.  The solver
  with the text key returns a grid whenever some grid solves the puzzle.
  Whenever the solver with the text key ends with that error, so does the
  solver with the bit-packed key.  That the solver with the bit-packed key
  returns a grid whenever the other one does is not stated: its keys
  collide.
\<close>

theorem solvers_verdicts:
  assumes "passesChecks ls" and "oneMarked ls"
  shows "(baselineSolverA ls = Inl NoValidSolution
            \<or> (\<exists>g. baselineSolverA ls = Inr g \<and> solves (map wordsOf ls) g))
         \<and> (baselineSolver ls = Inl NoValidSolution
            \<or> (\<exists>g. baselineSolver ls = Inr g \<and> solves (map wordsOf ls) g))
         \<and> ((\<exists>g. solves (map wordsOf ls) g) \<longrightarrow> (\<exists>g. baselineSolverA ls = Inr g))
         \<and> (baselineSolverA ls = Inl NoValidSolution \<longrightarrow> baselineSolver ls = Inl NoValidSolution)"
proof -
  note a = solveWith_verdict [OF assms, of encodeStateA]
  note b = solveWith_verdict [OF assms, of encodeState]
  have c: "(\<exists>g. solves (map wordsOf ls) g) \<longrightarrow> (\<exists>g. solveWith encodeStateA ls = Inr g)"
    using solveWith_complete [OF keyInj_encodeStateA assms] by blast
  from b c have "solveWith encodeStateA ls = Inl NoValidSolution \<longrightarrow>
                   solveWith encodeState ls = Inl NoValidSolution"
    by auto
  with a b c show ?thesis by (simp add: baselineSolverA_def baselineSolver_def)
qed


section \<open>Two inputs with rows that have no or several marked words\<close>

text \<open>
  \<open>irregularInput\<close> has a solution, and the grid returned for it is none:
  its column 1 holds five marked words.  \<open>divergentInput\<close> passes the
  checks and has a solution.  On \<open>divergentInput\<close> the search with the
  text key returns a grid after 972 invocations of \<open>assignRow\<close>, and the
  search with the bit-packed key ends with the error after 16881
  invocations, 10348 of them answered from the memo table; these two runs
  are not replayed in this theory.
\<close>

lemma solves_list_all:
  "solves rs g =
     (length g = 16 \<and> list_all (\<lambda>i. mset (g ! i) = mset (rs ! i)) [0..<16] \<and>
      list_all (\<lambda>c. colCount isX g [0..<16] c = 4 \<and> colCount isB g [0..<16] c \<ge> 4
                  \<and> colCount isBXword g [0..<16] c \<le> 1) [0..<4])"
  by (auto simp: solves_def list_all_iff)

lemma irregular_solvable: "solves (map wordsOf irregularInput) irregularSolution"
  unfolding solves_list_all by code_simp

lemma irregular_grid_marked: "colCount isX irregularGrid [0..<16] 1 = 5"
  by code_simp

lemma divergent_checks: "passesChecks divergentInput"
  by code_simp

lemma divergent_solvable: "solves (map wordsOf divergentInput) divergentSolution"
  unfolding solves_list_all by code_simp

lemma example_solves: "solves (map wordsOf exampleInput) exampleGrid"
  using example_checks example_result unfolding baselineSolver_def
  by (auto intro: solveWith_sound)

section \<open>The theorems at concrete inputs\<close>

text \<open>
  The statements above instantiated at inputs on which every hypothesis is
  checked, and the inputs at which the claims C1, C3, C4 and C6 fail as
  they were first stated: \<open>overfullInput\<close> passes the checks, no grid
  solves it (it has seventeen marked words), and the solver returns a grid
  for it, with five marked words in column 1;
  \<open>irregularInput\<close> has a row with two marked words and a row with none,
  and the solver returns a grid for it instead of a malformed-input error.
\<close>

theorem returned_grid_solves_witness:
  "passesChecks exampleInput \<and> oneMarked exampleInput
   \<and> baselineSolver exampleInput = Inr exampleGrid
   \<and> solves (map wordsOf exampleInput) exampleGrid"
  using returned_grid_solves [of exampleInput exampleGrid] example_checks example_result
  by simp

theorem returned_grid_counterexample:
  "passesChecks overfullInput
   \<and> baselineSolver overfullInput = Inr overfullGrid
   \<and> colCount isX overfullGrid [0..<16] 1 = 5
   \<and> \<not> solves (map wordsOf overfullInput) overfullGrid"
proof -
  have "colCount isX overfullGrid [0..<16] 1 = 5" by code_simp
  with overfull_checks overfull_result overfull_unsolvable show ?thesis by blast
qed



theorem solvers_verdicts_witness:
  "passesChecks exampleInput \<and> oneMarked exampleInput
   \<and> solves (map wordsOf exampleInput) exampleGrid
   \<and> baselineSolver exampleInput = Inr exampleGrid
   \<and> (\<exists>g. baselineSolverA exampleInput = Inr g \<and> solves (map wordsOf exampleInput) g)"
proof -
  from solvers_verdicts [of exampleInput] example_checks example_solves
  have "\<exists>g. baselineSolverA exampleInput = Inr g \<and> solves (map wordsOf exampleInput) g"
    by (metis sum.distinct(1))
  with example_checks example_solves example_result show ?thesis by blast
qed

theorem solvers_counterexample:
  "passesChecks irregularInput
   \<and> solves (map wordsOf irregularInput) irregularSolution
   \<and> baselineSolver irregularInput = Inr irregularGrid
   \<and> colCount isX irregularGrid [0..<16] 1 = 5
   \<and> \<not> solves (map wordsOf irregularInput) irregularGrid"
proof -
  from irregular_grid_marked have "\<not> solves (map wordsOf irregularInput) irregularGrid"
    by (auto simp: solves_def)
  with irregular_checks irregular_solvable irregular_result irregular_grid_marked
  show ?thesis by blast
qed

theorem irregular_counterexample:
  "length (filter isX (wordsOf (irregularInput ! 14))) = 2
   \<and> length (filter isX (wordsOf (irregularInput ! 15))) = 0
   \<and> baselineSolver irregularInput = Inr irregularGrid"
proof -
  have "length (filter isX (wordsOf (irregularInput ! 14))) = 2"
    and "length (filter isX (wordsOf (irregularInput ! 15))) = 0"
    by code_simp+
  with irregular_result show ?thesis by simp
qed

theorem checked_input_is_searched_witness:
  "passesChecks irregularInput
   \<and> (baselineSolver irregularInput = Inl NoValidSolution
        \<or> (\<exists>g. baselineSolver irregularInput = Inr g))"
  using checked_input_is_searched [OF irregular_checks] irregular_checks by simp

theorem recursion_only_after_prunes_witness:
  "trace (snd (assignRow encodeState examplePuzzle 0 initState)) = exampleTrace
   \<and> list_all (enterPruned examplePuzzle) exampleTrace
   \<and> \<not> pruneOk examplePuzzle (15 + 1)
          (BCount (place3 examplePuzzle (rowOrder examplePuzzle ! 15) 0 [1, 2, 3] initState))
   \<and> \<not> fst (permLoop encodeState examplePuzzle 15 0 [[1, 2, 3]] initState)"
proof -
  have np: "\<not> pruneOk examplePuzzle (15 + 1)
          (BCount (place3 examplePuzzle (rowOrder examplePuzzle ! 15) 0 [1, 2, 3] initState))"
    by code_simp
  from recursion_only_after_prunes [of encodeState examplePuzzle 15 0 "[1, 2, 3]" initState "[]"]
  have t: "\<forall>e\<in>set (trace (snd (assignRow encodeState examplePuzzle 0 initState))).
             enterPruned examplePuzzle e"
    and p: "\<not> pruneOk examplePuzzle (15 + 1)
          (BCount (place3 examplePuzzle (rowOrder examplePuzzle ! 15) 0 [1, 2, 3] initState)) \<longrightarrow>
        permLoop encodeState examplePuzzle 15 0 [[1, 2, 3]] initState =
          permLoop encodeState examplePuzzle 15 0 []
            (restoreB (BCount initState)
               (place3 examplePuzzle (rowOrder examplePuzzle ! 15) 0 [1, 2, 3] initState))"
    by blast+
  from p np have "\<not> fst (permLoop encodeState examplePuzzle 15 0 [[1, 2, 3]] initState)"
    by (simp add: permLoop_Nil)
  with t np example_trace show ?thesis by (simp add: list_all_iff)
qed

theorem assignRow_false_restores_witness:
  "caps4 (initState\<lparr>BCount := [4, 4, 4, 4]\<rparr>)
   \<and> \<not> fst (assignRow encodeState examplePuzzle 15 (initState\<lparr>BCount := [4, 4, 4, 4]\<rparr>))
   \<and> columnState (snd (assignRow encodeState examplePuzzle 15 (initState\<lparr>BCount := [4, 4, 4, 4]\<rparr>)))
       = ([4, 4, 4, 4], [1, 1, 1, 1], [4, 4, 4, 4])"
proof -
  let ?s = "initState\<lparr>BCount := [4, 4, 4, 4]\<rparr>"
  have c: "caps4 ?s" by (simp add: caps4_def)
  have f: "\<not> fst (assignRow encodeState examplePuzzle 15 ?s)" by code_simp
  then have "assignRow encodeState examplePuzzle 15 ?s
               = (False, snd (assignRow encodeState examplePuzzle 15 ?s))"
    by (metis prod.collapse)
  from assignRow_false_restores [OF c this] c f show ?thesis
    by (simp add: columnState_def)
qed

theorem capacities_in_range_witness:
  "trace (snd (assignRow encodeState examplePuzzle 0 initState)) = exampleTrace
   \<and> list_all eventInRange exampleTrace \<and> inRange [0, 0, 0, 0] [0, 0, 1, 1]"
  using capacities_in_range [of encodeState examplePuzzle] example_trace example_search
  by (simp add: Let_def list_all_iff)

theorem rowOrder_sorted_witness:
  "rowOrder examplePuzzle ! 0 = 9 \<and> rowOrder examplePuzzle ! 1 = 0
   \<and> map parseLine exampleInput ! 9 ! 0 = ''BX'' \<and> map parseLine exampleInput ! 0 ! 0 = ''BX''
   \<and> countB (map parseLine exampleInput ! 9) \<le> countB (map parseLine exampleInput ! 0)"
proof -
  have e: "rowOrder examplePuzzle ! 0 = 9" "rowOrder examplePuzzle ! 1 = 0"
    "map parseLine exampleInput ! 9 ! 0 = ''BX''" "map parseLine exampleInput ! 0 ! 0 = ''BX''"
    by code_simp+
  have "(0::nat) < 1" "(1::nat) < 16" by simp_all
  from rowOrder_sorted [OF this, of "map parseLine exampleInput"] e show ?thesis
    unfolding examplePuzzle_def Let_def by metis
qed

end
